theory Spec2Isabelle
  imports Complex_Main
begin

section \<open>Python values, solver expressions and exceptions\<close>

text \<open>
  The program is Python over two libraries: networkx (an undirected multigraph with
  attribute dictionaries on the edges) and z3 (symbolic real arithmetic, a solver with
  assertion frames). Numbers are modelled as rationals: Python's int and float are not
  told apart, and a float operation is the exact operation on rationals. Every exception
  the modelled code can raise is a value of \<open>error\<close>. A function that computes a value
  returns \<open>error + 'a\<close>. A constraint builder or a strategy, which changes an object of
  its caller in place (the solver, the graph, the list of route flows), returns
  \<open>(error \<times> 's) + 'a\<close>: when it raises, the exception comes with the object as the
  code has left it. (The route enumerator changes the graph too; it is proved below
  never to raise.)
\<close>

datatype error =
  KeyError | IndexError | TypeError | ValueError | ZeroDivisionError | AttributeError | Z3Exception

definition bindE :: "'e + 'a \<Rightarrow> ('a \<Rightarrow> 'e + 'b) \<Rightarrow> 'e + 'b" where
  "bindE m f = (case m of Inl e \<Rightarrow> Inl e | Inr x \<Rightarrow> f x)"

text \<open>
  \<open>in_state s m\<close>: the computation \<open>m\<close>, which changes nothing, run when the object is
  \<open>s\<close>. \<open>with_state f m\<close>: what is left behind when \<open>m\<close> raises is \<open>f\<close> of
  what \<open>m\<close> itself has changed.
\<close>

definition in_state :: "'s \<Rightarrow> error + 'a \<Rightarrow> (error \<times> 's) + 'a" where
  "in_state s m = (case m of Inl e \<Rightarrow> Inl (e, s) | Inr x \<Rightarrow> Inr x)"

definition with_state :: "('s \<Rightarrow> 't) \<Rightarrow> (error \<times> 's) + 'a \<Rightarrow> (error \<times> 't) + 'a" where
  "with_state f m = (case m of Inl (e, s) \<Rightarrow> Inl (e, f s) | Inr x \<Rightarrow> Inr x)"

text \<open>
  A z3 arithmetic expression. \<open>RealVar n\<close> is \<open>Real(n)\<close>; \<open>IntVar i\<close> is \<open>Int(i)\<close>
  called with a number, which z3 reads as the name of a fresh integer constant (not as
  the value \<open>i\<close>); \<open>NumVal\<close> is a Python number coerced into an expression.
\<close>

datatype expr =
    RealVar string
  | IntVar int
  | NumVal rat
  | Plus expr expr
  | Minus expr expr
  | Times expr expr
  | SumOf "expr list"

text \<open>What an attribute, a route flow or a cost can hold at run time.\<close>

datatype pyval = PNum rat | PStr string | PNone | PExpr expr

fun is_expr :: "pyval \<Rightarrow> bool" where
  "is_expr (PExpr e) = True"
| "is_expr v = False"

section \<open>The multigraph\<close>

text \<open>
  A networkx \<open>MultiGraph\<close>: the nodes in insertion order and the edges in insertion
  order, each edge with the endpoints it was added with, its key and its attribute
  dictionary. The graph is undirected: the edge \<open>(u, v, key)\<close> is also found as
  \<open>(v, u, key)\<close>. Keys given by the parser are the integers 0, 1, 2, ..., the
  enumerator's synthetic keys are strings; \<open>OtherKey\<close> is any other value that a line of
  a file names as the key of its edge.
\<close>

type_synonym node = string

datatype ekey = IntKey nat | StrKey string | OtherKey pyval

type_synonym attrs = "string \<rightharpoonup> pyval"

type_synonym edge = "node \<times> node \<times> ekey \<times> attrs"

record graph =
  nodes :: "node list"
  edges :: "edge list"

text \<open>\<open>n in graph\<close>\<close>

definition has_node :: "graph \<Rightarrow> node \<Rightarrow> bool" where
  "has_node g n = (n \<in> set (nodes g))"

definition joins :: "node \<Rightarrow> node \<Rightarrow> edge \<Rightarrow> bool" where
  "joins u v e = (case e of (x, y, k, a) \<Rightarrow> (x = u \<and> y = v) \<or> (x = v \<and> y = u))"

text \<open>The key dictionary between \<open>u\<close> and \<open>v\<close>, in insertion order of the keys.\<close>

definition keydict :: "graph \<Rightarrow> node \<Rightarrow> node \<Rightarrow> (ekey \<times> attrs) list" where
  "keydict g u v = map (\<lambda>(x, y, k, a). (k, a)) (filter (joins u v) (edges g))"

text \<open>
  \<open>graph[u][v]\<close>: raises KeyError when no edge joins \<open>u\<close> and \<open>v\<close> (this covers
  \<open>u\<close> not being a node: a node without edges has no neighbours).
\<close>

definition getitem_uv :: "graph \<Rightarrow> node \<Rightarrow> node \<Rightarrow> error + (ekey \<times> attrs) list" where
  "getitem_uv g u v = (if keydict g u v = [] then Inl KeyError else Inr (keydict g u v))"

text \<open>\<open>graph[u][v][key]\<close>\<close>

definition getitem_uvk :: "graph \<Rightarrow> node \<Rightarrow> node \<Rightarrow> ekey \<Rightarrow> error + attrs" where
  "getitem_uvk g u v key =
     bindE (getitem_uv g u v)
       (\<lambda>kd. case map_of kd key of None \<Rightarrow> Inl KeyError | Some a \<Rightarrow> Inr a)"

text \<open>
  \<open>graph.add_edge(u, v, key=key, **attr)\<close>: missing endpoints become nodes; an edge
  between the two nodes that already has the key gets its dictionary updated, otherwise a
  new edge is appended.
\<close>

definition add_nodes :: "node list \<Rightarrow> node \<Rightarrow> node \<Rightarrow> node list" where
  "add_nodes ns u v =
     (let ns1 = (if u \<in> set ns then ns else ns @ [u])
      in if v \<in> set ns1 then ns1 else ns1 @ [v])"

definition add_edge :: "graph \<Rightarrow> node \<Rightarrow> node \<Rightarrow> ekey \<Rightarrow> attrs \<Rightarrow> graph" where
  "add_edge g u v key attr =
     \<lparr> nodes = add_nodes (nodes g) u v,
       edges =
         (if key \<in> fst ` set (keydict g u v)
          then map (\<lambda>(x, y, k, a). if joins u v (x, y, k, a) \<and> k = key
                                   then (x, y, k, a ++ attr) else (x, y, k, a)) (edges g)
          else edges g @ [(u, v, key, attr)]) \<rparr>"

text \<open>First-occurrence order of a list without its repetitions (the keys of a dict).\<close>

definition uniq :: "'a list \<Rightarrow> 'a list" where
  "uniq xs = rev (remdups (rev xs))"

text \<open>The neighbours of \<open>n\<close> in adjacency order: \<open>graph[n]\<close>.\<close>

definition other_end :: "node \<Rightarrow> edge \<Rightarrow> node" where
  "other_end n e = (case e of (x, y, k, a) \<Rightarrow> if x = n then y else x)"

definition touches :: "node \<Rightarrow> edge \<Rightarrow> bool" where
  "touches n e = (case e of (x, y, k, a) \<Rightarrow> x = n \<or> y = n)"

definition nbrs :: "graph \<Rightarrow> node \<Rightarrow> node list" where
  "nbrs g n = uniq (map (other_end n) (filter (touches n) (edges g)))"

text \<open>
  \<open>G.edges(n)\<close> of a multigraph reports one pair per parallel edge: the neighbours of
  \<open>n\<close>, each repeated once per key.
\<close>

definition edge_targets :: "graph \<Rightarrow> node \<Rightarrow> node list" where
  "edge_targets g n = concat (map (\<lambda>v. map (\<lambda>ka. v) (keydict g n v)) (nbrs g n))"

text \<open>
  \<open>graph.edges(keys=True, data=True)\<close>: node by node in insertion order, neighbour by
  neighbour, skipping the neighbours already done, one entry per key. An edge is
  reported with the earlier of its two nodes first.
\<close>

fun edges_from :: "graph \<Rightarrow> node list \<Rightarrow> node list \<Rightarrow> edge list" where
  "edges_from g seen [] = []"
| "edges_from g seen (n # ns) =
     concat (map (\<lambda>v. if v \<in> set seen then []
                       else map (\<lambda>(k, a). (n, v, k, a)) (keydict g n v)) (nbrs g n))
     @ edges_from g (n # seen) ns"

definition edges_view :: "graph \<Rightarrow> edge list" where
  "edges_view g = edges_from g [] (nodes g)"

section \<open>Route enumeration (solverUtils.getAllPossibleRoutes)\<close>

text \<open>
  \<open>nx.all_simple_paths(graph, source, target, cutoff)\<close> on a multigraph: a depth-first
  search that lists every simple node path from the source to the target with at most
  \<open>cutoff\<close> edges, once per choice of parallel edges. \<open>visited\<close> is the path so far,
  nearest node first, without the current node \<open>u\<close>.

  networkx releases differ on \<open>source = target\<close>: older ones list nothing, newer ones
  list the one-node path. The flag \<open>trivial\<close> chooses between them, so that what is
  proved below holds for both.
\<close>

fun simple_paths_dfs :: "graph \<Rightarrow> node \<Rightarrow> nat \<Rightarrow> node list \<Rightarrow> node \<Rightarrow> node list list" where
  "simple_paths_dfs g t 0 visited u = []"
| "simple_paths_dfs g t (Suc n) visited u =
     concat (map (\<lambda>v. if v \<in> set (u # visited) then []
                       else if v = t then [rev (v # u # visited)]
                       else simple_paths_dfs g t n (u # visited) v)
                 (edge_targets g u))"

definition all_simple_paths :: "bool \<Rightarrow> graph \<Rightarrow> node \<Rightarrow> node \<Rightarrow> nat \<Rightarrow> node list list" where
  "all_simple_paths trivial g source target cutoff =
     (if source = target then (if trivial then [[source]] else [])
      else simple_paths_dfs g target cutoff [] source)"

record demand =
  dm_s :: node
  dm_t :: node
  dm_d :: rat

type_synonym route = "(node \<times> node \<times> ekey) list"

definition MAX_ROUTES_PER_DEMAND :: nat where
  "MAX_ROUTES_PER_DEMAND = 6"

definition PERSONAL_CAP :: rat where
  "PERSONAL_CAP = 500"

definition PERSONAL_PRICE :: rat where
  "PERSONAL_PRICE = 100"

definition default_attr :: attrs where
  "default_attr = [''k'' \<mapsto> PNum 1, ''capacity'' \<mapsto> PNum PERSONAL_CAP,
                   ''price'' \<mapsto> PNum PERSONAL_PRICE, ''color'' \<mapsto> PStr ''personal'']"

definition default_key :: "node \<Rightarrow> node \<Rightarrow> ekey" where
  "default_key s t = StrKey (''auto_'' @ s @ ''_'' @ t)"

text \<open>
  The inner loop over consecutive nodes of a path: one list of edge options
  \<open>(u, v, key)\<close> per hop, the keys in the order of \<open>graph[u][v]\<close>.
\<close>

fun temp_list :: "graph \<Rightarrow> node list \<Rightarrow> error + route list" where
  "temp_list g (u # v # rest) =
     bindE (getitem_uv g u v) (\<lambda>parallel_edges.
     bindE (temp_list g (v # rest)) (\<lambda>more.
       Inr (map (\<lambda>(key, data_dict). (u, v, key)) parallel_edges # more)))"
| "temp_list g path = Inr []"

text \<open>
  The loop over the node paths: \<open>itertools.product\<close> of the options of each path,
  appended to the routes of the demand in the order of the paths.
\<close>

fun expand_paths :: "graph \<Rightarrow> node list list \<Rightarrow> error + route list" where
  "expand_paths g [] = Inr []"
| "expand_paths g (path # paths) =
     bindE (temp_list g path) (\<lambda>tl.
     bindE (expand_paths g paths) (\<lambda>more. Inr (product_lists tl @ more)))"

text \<open>
  One iteration of the loop over the demands. The node paths of minimal length go
  through a Python \<open>set\<close> and back into a list; the order in which a set of tuples of
  strings is iterated depends on the string hashes, which CPython seeds per process.
  \<open>set_order\<close> is that order: it is given the distinct paths and returns them in the
  order of iteration.
\<close>

definition route_step ::
  "(node list list \<Rightarrow> node list list) \<Rightarrow> bool \<Rightarrow> nat \<Rightarrow> graph \<Rightarrow> demand
     \<Rightarrow> error + (graph \<times> route list)" where
  "route_step set_order trivial max_hops g dm =
     (let s = dm_s dm; t = dm_t dm;
          node_paths = (if \<not> has_node g s \<or> \<not> has_node g t then []
                        else all_simple_paths trivial g s t max_hops)
      in if node_paths = []
         then Inr (add_edge g s t (default_key s t) default_attr, [[(s, t, default_key s t)]])
         else
           let min_length = min_list (map length node_paths);
               shortest = set_order (remdups (filter (\<lambda>p. length p = min_length) node_paths))
           in bindE (expand_paths g shortest) (\<lambda>all_edge_paths_for_demand.
                Inr (g, take MAX_ROUTES_PER_DEMAND all_edge_paths_for_demand)))"

text \<open>The whole function: the final graph (it is mutated in place) and \<open>R_ij\<close>.\<close>

fun getAllPossibleRoutes ::
  "(node list list \<Rightarrow> node list list) \<Rightarrow> bool \<Rightarrow> nat \<Rightarrow> graph \<Rightarrow> demand list
     \<Rightarrow> error + (graph \<times> route list list)" where
  "getAllPossibleRoutes set_order trivial max_hops g [] = Inr (g, [])"
| "getAllPossibleRoutes set_order trivial max_hops g (dm # demands) =
     bindE (route_step set_order trivial max_hops g dm) (\<lambda>(g1, routes).
     bindE (getAllPossibleRoutes set_order trivial max_hops g1 demands) (\<lambda>(g2, R_ij).
       Inr (g2, routes # R_ij)))"

text \<open>The graph as the loop finds it when it reaches demand number \<open>i\<close>.\<close>

fun graph_at ::
  "(node list list \<Rightarrow> node list list) \<Rightarrow> bool \<Rightarrow> nat \<Rightarrow> graph \<Rightarrow> demand list \<Rightarrow> nat \<Rightarrow> graph" where
  "graph_at set_order trivial max_hops g [] i = g"
| "graph_at set_order trivial max_hops g (dm # demands) 0 = g"
| "graph_at set_order trivial max_hops g (dm # demands) (Suc i) =
     (case route_step set_order trivial max_hops g dm of
        Inl e \<Rightarrow> g
      | Inr (g1, routes) \<Rightarrow> graph_at set_order trivial max_hops g1 demands i)"

section \<open>What the enumerator is specified to produce\<close>

text \<open>
  A walk: consecutive nodes are joined by at least one edge. A simple path from \<open>s\<close>
  to \<open>t\<close> is a walk without repeated nodes that starts at \<open>s\<close> and ends at \<open>t\<close>.
\<close>

fun is_walk :: "graph \<Rightarrow> node list \<Rightarrow> bool" where
  "is_walk g (u # v # rest) = (keydict g u v \<noteq> [] \<and> is_walk g (v # rest))"
| "is_walk g p = True"

definition simple_path :: "graph \<Rightarrow> node \<Rightarrow> node \<Rightarrow> node list \<Rightarrow> bool" where
  "simple_path g s t p = (p \<noteq> [] \<and> hd p = s \<and> last p = t \<and> distinct p \<and> is_walk g p)"

text \<open>
  The parallel edges of every hop of a node path, and the edge-level routes of a list of
  node paths: the Cartesian product over the hops, path after path.
\<close>

fun hop_options :: "graph \<Rightarrow> node list \<Rightarrow> route list" where
  "hop_options g (u # v # rest) =
     map (\<lambda>(key, data_dict). (u, v, key)) (keydict g u v) # hop_options g (v # rest)"
| "hop_options g path = []"

definition routes_of_paths :: "graph \<Rightarrow> node list list \<Rightarrow> route list" where
  "routes_of_paths g paths = concat (map (\<lambda>path. product_lists (hop_options g path)) paths)"

text \<open>
  A set order is any way of listing a set of distinct paths: the same paths, each once.
\<close>

definition valid_set_order :: "(node list list \<Rightarrow> node list list) \<Rightarrow> bool" where
  "valid_set_order set_order =
     (\<forall>ps. distinct ps \<longrightarrow> distinct (set_order ps) \<and> set (set_order ps) = set ps)"

text \<open>The route list of a demand served by its synthetic personal edge.\<close>

definition synthetic_route :: "demand \<Rightarrow> route list" where
  "synthetic_route dm = [[(dm_s dm, dm_t dm, default_key (dm_s dm) (dm_t dm))]]"

text \<open>The listed node paths of minimal length, without repetitions.\<close>

definition shortest_listed :: "bool \<Rightarrow> graph \<Rightarrow> demand \<Rightarrow> nat \<Rightarrow> node list list" where
  "shortest_listed trivial g dm max_hops =
     (let node_paths = all_simple_paths trivial g (dm_s dm) (dm_t dm) max_hops
      in remdups (filter (\<lambda>p. length p = min_list (map length node_paths)) node_paths))"

section \<open>Python arithmetic on numbers and z3 expressions\<close>

text \<open>
  The operators of the source are overloaded: on two numbers they compute, with a z3
  expression on either side they build an expression or a formula. \<open>arith\<close> holds of
  the values they accept. An operand that is a string or \<open>None\<close> raises (Python repeats a
  string multiplied by an int; that result only ever reaches an addition to a number,
  which raises TypeError as well).
\<close>

fun arith :: "pyval \<Rightarrow> bool" where
  "arith (PNum x) = True"
| "arith (PExpr e) = True"
| "arith v = False"

text \<open>A Python number coerced into a z3 expression.\<close>

fun coerce :: "pyval \<Rightarrow> expr" where
  "coerce (PExpr e) = e"
| "coerce (PNum x) = NumVal x"
| "coerce v = NumVal 0"

fun add_val :: "pyval \<Rightarrow> pyval \<Rightarrow> pyval" where
  "add_val (PNum x) (PNum y) = PNum (x + y)"
| "add_val a b = PExpr (Plus (coerce a) (coerce b))"

fun sub_val :: "pyval \<Rightarrow> pyval \<Rightarrow> pyval" where
  "sub_val (PNum x) (PNum y) = PNum (x - y)"
| "sub_val a b = PExpr (Minus (coerce a) (coerce b))"

fun mul_val :: "pyval \<Rightarrow> pyval \<Rightarrow> pyval" where
  "mul_val (PNum x) (PNum y) = PNum (x * y)"
| "mul_val a b = PExpr (Times (coerce a) (coerce b))"

definition binop :: "(pyval \<Rightarrow> pyval \<Rightarrow> 'a) \<Rightarrow> pyval \<Rightarrow> pyval \<Rightarrow> error + 'a" where
  "binop f a b =
     (if arith a \<and> arith b then Inr (f a b)
      else if is_expr a \<or> is_expr b then Inl Z3Exception else Inl TypeError)"

definition py_add :: "pyval \<Rightarrow> pyval \<Rightarrow> error + pyval" where
  "py_add = binop add_val"

definition py_sub :: "pyval \<Rightarrow> pyval \<Rightarrow> error + pyval" where
  "py_sub = binop sub_val"

definition py_mul :: "pyval \<Rightarrow> pyval \<Rightarrow> error + pyval" where
  "py_mul = binop mul_val"

text \<open>
  \<open>a / b\<close>: division by zero raises. The source divides numbers only (a route price that
  is no expression has been through \<open>float\<close>), so no other case is modelled.
\<close>

fun py_div :: "pyval \<Rightarrow> pyval \<Rightarrow> error + pyval" where
  "py_div (PNum x) (PNum y) = (if y = 0 then Inl ZeroDivisionError else Inr (PNum (x / y)))"
| "py_div a b = Inl TypeError"

text \<open>\<open>float(v)\<close>; the text of a string is not parsed by the model.\<close>

fun py_float :: "pyval \<Rightarrow> error + pyval" where
  "py_float (PNum x) = Inr (PNum x)"
| "py_float (PStr s) = Inl ValueError"
| "py_float v = Inl TypeError"

text \<open>
  A formula as the solver receives it. A comparison of two numbers is a Python bool,
  which z3 takes as a Boolean value. With the number on the left Python calls the
  reflected operator of the expression on the right.
\<close>

datatype formula =
    BoolVal bool
  | Le expr expr
  | Ge expr expr
  | EqF expr expr
  | Implies formula formula
  | And "formula list"

fun ge_val :: "pyval \<Rightarrow> pyval \<Rightarrow> formula" where
  "ge_val (PNum x) (PNum y) = BoolVal (y \<le> x)"
| "ge_val (PNum x) (PExpr e) = Le e (NumVal x)"
| "ge_val a b = Ge (coerce a) (coerce b)"

fun le_val :: "pyval \<Rightarrow> pyval \<Rightarrow> formula" where
  "le_val (PNum x) (PNum y) = BoolVal (x \<le> y)"
| "le_val (PNum x) (PExpr e) = Ge e (NumVal x)"
| "le_val a b = Le (coerce a) (coerce b)"

fun eq_val :: "pyval \<Rightarrow> pyval \<Rightarrow> formula" where
  "eq_val (PNum x) (PNum y) = BoolVal (x = y)"
| "eq_val (PNum x) (PExpr e) = EqF e (NumVal x)"
| "eq_val a b = EqF (coerce a) (coerce b)"

definition py_ge :: "pyval \<Rightarrow> pyval \<Rightarrow> error + formula" where
  "py_ge = binop ge_val"

definition py_le :: "pyval \<Rightarrow> pyval \<Rightarrow> error + formula" where
  "py_le = binop le_val"

text \<open>\<open>a == b\<close> never raises between plain Python values; an expression against \<open>None\<close> is False.\<close>

definition py_eq :: "pyval \<Rightarrow> pyval \<Rightarrow> error + formula" where
  "py_eq a b =
     (if arith a \<and> arith b then Inr (eq_val a b)
      else if (is_expr a \<and> b \<noteq> PNone) \<or> (is_expr b \<and> a \<noteq> PNone) then Inl Z3Exception
      else Inr (BoolVal (a = b)))"

text \<open>The builtin \<open>sum\<close>: starts from 0 and adds from the left.\<close>

fun sum_from :: "pyval \<Rightarrow> pyval list \<Rightarrow> error + pyval" where
  "sum_from acc [] = Inr acc"
| "sum_from acc (v # vs) = bindE (py_add acc v) (\<lambda>acc'. sum_from acc' vs)"

definition py_sum :: "pyval list \<Rightarrow> error + pyval" where
  "py_sum vs = sum_from (PNum 0) vs"

text \<open>
  z3's \<open>Sum\<close>: 0 for no arguments, the Python sum when no argument is an expression,
  otherwise one n-ary addition of the coerced arguments.
\<close>

definition z3_Sum :: "pyval list \<Rightarrow> error + pyval" where
  "z3_Sum args =
     (if args = [] then Inr (PNum 0)
      else if \<not> list_ex is_expr args then py_sum args
      else if list_all arith args then Inr (PExpr (SumOf (map coerce args)))
      else Inl Z3Exception)"

text \<open>\<open>xs[i]\<close> for an index that is not negative, and \<open>data[name]\<close>.\<close>

definition nth_py :: "'a list \<Rightarrow> nat \<Rightarrow> error + 'a" where
  "nth_py xs i = (if i < length xs then Inr (xs ! i) else Inl IndexError)"

definition getattr :: "attrs \<Rightarrow> string \<Rightarrow> error + pyval" where
  "getattr data name = (case data name of None \<Rightarrow> Inl KeyError | Some v \<Rightarrow> Inr v)"

text \<open>The decimal text of a number, for the names \<open>T_i\<close>.\<close>

definition digit_char :: "nat \<Rightarrow> char" where
  "digit_char n = ''0123456789'' ! n"

function str_nat :: "nat \<Rightarrow> string" where
  "str_nat n = (if n < 10 then [digit_char n] else str_nat (n div 10) @ [digit_char (n mod 10)])"
  by pat_completeness auto
termination
  by (relation "measure id") auto

declare str_nat.simps [simp del]

section \<open>Route cost and route price (solverUtils.compute_route_cost, compute_route_price)\<close>

fun cost_terms :: "graph \<Rightarrow> route \<Rightarrow> error + pyval list" where
  "cost_terms g [] = Inr []"
| "cost_terms g ((u, v, key) # rest) =
     bindE (getitem_uvk g u v key) (\<lambda>data.
     bindE (getattr data ''f_e'') (\<lambda>f_e.
     bindE (getattr data ''k'') (\<lambda>k.
     bindE (getattr data ''price'') (\<lambda>price.
     bindE (py_mul k f_e) (\<lambda>kf.
     bindE (py_add kf price) (\<lambda>cost_term.
     bindE (cost_terms g rest) (\<lambda>more. Inr (cost_term # more))))))))"

definition compute_route_cost :: "graph \<Rightarrow> route \<Rightarrow> error + pyval" where
  "compute_route_cost g route_edges =
     bindE (cost_terms g route_edges) (\<lambda>terms.
       if list_ex is_expr terms then z3_Sum terms else py_sum terms)"

fun price_terms :: "graph \<Rightarrow> route \<Rightarrow> error + pyval list" where
  "price_terms g [] = Inr []"
| "price_terms g ((u, v, key) # rest) =
     bindE (getitem_uvk g u v key) (\<lambda>data.
     bindE (getattr data ''price'') (\<lambda>price.
     bindE (price_terms g rest) (\<lambda>more. Inr (price # more))))"

fun floats :: "pyval list \<Rightarrow> error + pyval list" where
  "floats [] = Inr []"
| "floats (v # vs) = bindE (py_float v) (\<lambda>x. bindE (floats vs) (\<lambda>xs. Inr (x # xs)))"

definition compute_route_price :: "graph \<Rightarrow> route \<Rightarrow> error + pyval" where
  "compute_route_price g route_edges =
     bindE (price_terms g route_edges) (\<lambda>terms.
       if list_ex is_expr terms then z3_Sum terms
       else bindE (floats terms) py_sum)"

section \<open>The solver\<close>

text \<open>
  A z3 \<open>Optimize\<close> object as the strategies use it: the assertions and the objectives
  in the order they were added, and one saved pair of lengths per open frame.
  \<open>push\<close> opens a frame, \<open>pop\<close> drops what was added since the matching \<open>push\<close>
  and raises when no frame is open. \<open>minimize\<close> calls \<open>as_ast\<close> of its argument, which
  only a z3 expression has: a Python number raises AttributeError. What \<open>check\<close> answers
  is not modelled: it is a parameter of the strategies.
\<close>

record solver =
  assertions :: "formula list"
  objectives :: "pyval list"
  frames :: "(nat \<times> nat) list"

definition solver_add :: "solver \<Rightarrow> formula \<Rightarrow> solver" where
  "solver_add sv f = sv\<lparr> assertions := assertions sv @ [f] \<rparr>"

definition solver_push :: "solver \<Rightarrow> solver" where
  "solver_push sv = sv\<lparr> frames := (length (assertions sv), length (objectives sv)) # frames sv \<rparr>"

definition solver_pop :: "solver \<Rightarrow> error + solver" where
  "solver_pop sv =
     (case frames sv of
        [] \<Rightarrow> Inl Z3Exception
      | (na, no) # rest \<Rightarrow>
          Inr \<lparr> assertions = take na (assertions sv), objectives = take no (objectives sv),
                frames = rest \<rparr>)"

definition solver_minimize :: "solver \<Rightarrow> pyval \<Rightarrow> error + solver" where
  "solver_minimize sv objective =
     (if is_expr objective then Inr (sv\<lparr> objectives := objectives sv @ [objective] \<rparr>)
      else Inl AttributeError)"

section \<open>The constraint builder (solverUtils.addC1C2Constraints, addC3C4Constraints)\<close>

text \<open>
  The builders add to the solver they are given, statement by statement. When a statement
  raises, the solver keeps what the statements before it have added: the exception comes
  with the solver as it is then.
\<close>

definition PRICE_MIN :: rat where
  "PRICE_MIN = 5"

definition TOLERANCE_FLOW :: rat where
  "TOLERANCE_FLOW = 1"

definition TOLERANCE_COST :: rat where
  "TOLERANCE_COST = 5"

text \<open>
  The two inner loops of C1 for the edge \<open>(u, v, key)\<close>: the flows of the routes that
  list that very triple. \<open>f_R_vars[i]\<close> is read for every demand, \<open>f_R_i_vars[j]\<close>
  only for a route that lists the triple.
\<close>

fun flows_of_routes :: "node \<times> node \<times> ekey \<Rightarrow> pyval list \<Rightarrow> nat \<Rightarrow> route list \<Rightarrow> error + pyval list" where
  "flows_of_routes e f_R_i_vars j [] = Inr []"
| "flows_of_routes e f_R_i_vars j (route_edges # rest) =
     (if list_ex (\<lambda>edge. edge = e) route_edges
      then bindE (nth_py f_R_i_vars j) (\<lambda>f_R.
           bindE (flows_of_routes e f_R_i_vars (Suc j) rest) (\<lambda>more. Inr (f_R # more)))
      else flows_of_routes e f_R_i_vars (Suc j) rest)"

fun sum_f_R_on_e :: "node \<times> node \<times> ekey \<Rightarrow> pyval list list \<Rightarrow> nat \<Rightarrow> route list list \<Rightarrow> error + pyval list" where
  "sum_f_R_on_e e f_R_vars i [] = Inr []"
| "sum_f_R_on_e e f_R_vars i (demand_routes # rest) =
     bindE (nth_py f_R_vars i) (\<lambda>f_R_i_vars.
     bindE (flows_of_routes e f_R_i_vars 0 demand_routes) (\<lambda>here.
     bindE (sum_f_R_on_e e f_R_vars (Suc i) rest) (\<lambda>more. Inr (here @ more))))"

text \<open>
  The body of the loop over the edges: C1, then C2 (\<open>0 <= f_e\<close> is added before
  \<open>f_e <= capacity\<close> is computed), then the price is read and its bound added.
\<close>

definition edge_constraints ::
  "route list list \<Rightarrow> pyval list list \<Rightarrow> edge \<Rightarrow> solver \<Rightarrow> (error \<times> solver) + solver" where
  "edge_constraints R_ij f_R_vars e sv =
     (case e of (u, v, key, data) \<Rightarrow>
        bindE (in_state sv (getattr data ''f_e'')) (\<lambda>f_e.
        bindE (in_state sv (sum_f_R_on_e (u, v, key) f_R_vars 0 R_ij)) (\<lambda>flows.
        bindE (if flows = []
               then bindE (in_state sv (py_eq f_e (PNum 0))) (\<lambda>c. Inr (solver_add sv c))
               else bindE (in_state sv (z3_Sum flows)) (\<lambda>flow_sum.
                      if is_expr flow_sum
                      then bindE (in_state sv (py_eq f_e flow_sum)) (\<lambda>c. Inr (solver_add sv c))
                      else Inr sv)) (\<lambda>sv1.
        let capacity = (case data ''capacity'' of None \<Rightarrow> PExpr (IntVar 500) | Some c \<Rightarrow> c)
        in bindE (in_state sv1 (py_le (PNum 0) f_e)) (\<lambda>c0.
           let sv2 = solver_add sv1 c0
           in bindE (in_state sv2 (py_le f_e capacity)) (\<lambda>c1.
              let sv3 = solver_add sv2 c1
              in bindE (in_state sv3 (getattr data ''price'')) (\<lambda>price.
                 if is_expr price
                 then bindE (in_state sv3 (py_ge price (PNum PRICE_MIN))) (\<lambda>c2.
                        Inr (solver_add sv3 c2))
                 else Inr sv3)))))))"

fun edges_loop ::
  "route list list \<Rightarrow> pyval list list \<Rightarrow> edge list \<Rightarrow> solver \<Rightarrow> (error \<times> solver) + solver" where
  "edges_loop R_ij f_R_vars [] sv = Inr sv"
| "edges_loop R_ij f_R_vars (e # es) sv =
     bindE (edge_constraints R_ij f_R_vars e sv) (\<lambda>sv1. edges_loop R_ij f_R_vars es sv1)"

definition addC1C2Constraints ::
  "graph \<Rightarrow> route list list \<Rightarrow> pyval list list \<Rightarrow> solver \<Rightarrow> (error \<times> solver) + solver" where
  "addC1C2Constraints g R_ij f_R_vars sv = edges_loop R_ij f_R_vars (edges_view g) sv"

text \<open>
  The loop over the routes of one demand: the two Wardrop implications per route, the
  first one added before the second one is built.
\<close>

fun wardrop_loop ::
  "graph \<Rightarrow> pyval \<Rightarrow> pyval list \<Rightarrow> nat \<Rightarrow> route list \<Rightarrow> solver \<Rightarrow> (error \<times> solver) + solver" where
  "wardrop_loop g T_i f_R_i_vars j [] sv = Inr sv"
| "wardrop_loop g T_i f_R_i_vars j (route_edges # rest) sv =
     bindE (in_state sv (nth_py f_R_i_vars j)) (\<lambda>f_R.
     bindE (in_state sv (compute_route_cost g route_edges)) (\<lambda>cost_R.
     bindE (in_state sv (compute_route_price g route_edges)) (\<lambda>price_R.
     bindE (in_state sv (py_ge f_R (PNum TOLERANCE_FLOW))) (\<lambda>used.
     bindE (in_state sv (py_add T_i (PNum TOLERANCE_COST))) (\<lambda>upper.
     bindE (in_state sv (py_le cost_R upper)) (\<lambda>c_le.
     bindE (in_state sv (py_sub T_i (PNum TOLERANCE_COST))) (\<lambda>lower.
     bindE (in_state sv (py_ge cost_R lower)) (\<lambda>c_ge.
     let sv1 = solver_add sv (Implies used (And [c_le, c_ge]))
     in bindE (in_state sv1 (py_le f_R (PNum TOLERANCE_FLOW))) (\<lambda>unused.
        bindE (in_state sv1 (py_sub T_i (PNum TOLERANCE_COST))) (\<lambda>lower1.
        bindE (in_state sv1 (py_ge price_R lower1)) (\<lambda>p_ge.
          wardrop_loop g T_i f_R_i_vars (Suc j) rest
            (solver_add sv1 (Implies unused (And [p_ge]))))))))))))))"

text \<open>
  The loop over the demands: the conservation of the demand is added before the routes
  \<open>R_ij[i]\<close> are read.
\<close>

fun demands_loop ::
  "graph \<Rightarrow> route list list \<Rightarrow> pyval list list \<Rightarrow> nat \<Rightarrow> demand list \<Rightarrow> solver
     \<Rightarrow> (error \<times> solver) + solver" where
  "demands_loop g R_ij f_R_vars i [] sv = Inr sv"
| "demands_loop g R_ij f_R_vars i (dm # rest) sv =
     (if \<not> has_node g (dm_s dm) \<or> \<not> has_node g (dm_t dm)
      then demands_loop g R_ij f_R_vars (Suc i) rest sv
      else
        bindE (in_state sv (nth_py f_R_vars i)) (\<lambda>f_R_i_vars.
        bindE (in_state sv (z3_Sum f_R_i_vars)) (\<lambda>f_R_sum.
        bindE (in_state sv (py_eq f_R_sum (PNum (dm_d dm)))) (\<lambda>conservation.
        let sv1 = solver_add sv conservation
        in bindE (in_state sv1 (nth_py R_ij i)) (\<lambda>demand_routes.
           bindE (wardrop_loop g (PExpr (RealVar (''T_'' @ str_nat i))) f_R_i_vars 0 demand_routes
                    sv1) (\<lambda>sv2.
             demands_loop g R_ij f_R_vars (Suc i) rest sv2))))))"

definition addC3C4Constraints ::
  "graph \<Rightarrow> route list list \<Rightarrow> pyval list list \<Rightarrow> demand list \<Rightarrow> solver
     \<Rightarrow> (error \<times> solver) + solver" where
  "addC3C4Constraints g R_ij f_R_vars demands sv = demands_loop g R_ij f_R_vars 0 demands sv"

text \<open>\<open>addConstraints\<close>: C1 and C2, C3 to C5, then \<open>f_R >= 0\<close> for every route flow.\<close>

fun nonneg_loop :: "pyval list \<Rightarrow> solver \<Rightarrow> (error \<times> solver) + solver" where
  "nonneg_loop [] sv = Inr sv"
| "nonneg_loop (f_R # rest) sv =
     bindE (in_state sv (py_ge f_R (PNum 0))) (\<lambda>c. nonneg_loop rest (solver_add sv c))"

definition addConstraints ::
  "graph \<Rightarrow> route list list \<Rightarrow> pyval list list \<Rightarrow> demand list \<Rightarrow> solver
     \<Rightarrow> (error \<times> solver) + solver" where
  "addConstraints g R_ij f_R_vars demands sv =
     bindE (addC1C2Constraints g R_ij f_R_vars sv) (\<lambda>sv1.
     bindE (addC3C4Constraints g R_ij f_R_vars demands sv1) (\<lambda>sv2.
       nonneg_loop (concat f_R_vars) sv2))"

text \<open>\<open>getObjectiveExpr\<close>: the sum over all routes of flow times route cost.\<close>

fun objective_routes :: "graph \<Rightarrow> pyval list \<Rightarrow> nat \<Rightarrow> route list \<Rightarrow> error + pyval list" where
  "objective_routes g f_R_i_vars j [] = Inr []"
| "objective_routes g f_R_i_vars j (route_edges # rest) =
     bindE (nth_py f_R_i_vars j) (\<lambda>f_R.
     bindE (compute_route_cost g route_edges) (\<lambda>cost_R.
     bindE (py_mul f_R cost_R) (\<lambda>objective_term.
     bindE (objective_routes g f_R_i_vars (Suc j) rest) (\<lambda>more. Inr (objective_term # more)))))"

fun objective_terms :: "graph \<Rightarrow> pyval list list \<Rightarrow> nat \<Rightarrow> route list list \<Rightarrow> error + pyval list" where
  "objective_terms g f_R_vars i [] = Inr []"
| "objective_terms g f_R_vars i (demand_routes # rest) =
     bindE (nth_py f_R_vars i) (\<lambda>f_R_i_vars.
     bindE (objective_routes g f_R_i_vars 0 demand_routes) (\<lambda>here.
     bindE (objective_terms g f_R_vars (Suc i) rest) (\<lambda>more. Inr (here @ more))))"

definition getObjectiveExpr :: "graph \<Rightarrow> route list list \<Rightarrow> pyval list list \<Rightarrow> error + pyval" where
  "getObjectiveExpr g R_ij f_R_vars = bindE (objective_terms g f_R_vars 0 R_ij) z3_Sum"

section \<open>The solving strategies (solveStrategy.py)\<close>

text \<open>
  What the solver answers is outside the program: \<open>check\<close> maps the assertions and
  the objectives to a model when the answer is \<open>sat\<close> and to \<open>None\<close> otherwise, and
  \<open>evaluate m e\<close> is the text \<open>m.evaluate(e).as_decimal(5)\<close>. A strategy returns its
  pair \<open>(model, solved)\<close> together with everything it mutates in place; when it raises,
  the exception comes with those objects as they are then. No strategy catches an
  exception.
\<close>

text \<open>S1, \<open>optimizeObjective\<close>. It changes neither the graph nor the flow variables.\<close>

definition optimizeObjective ::
  "(formula list \<Rightarrow> pyval list \<Rightarrow> 'm option) \<Rightarrow> graph \<Rightarrow> route list list \<Rightarrow> pyval list list
     \<Rightarrow> demand list \<Rightarrow> solver \<Rightarrow> (error \<times> solver) + (('m option \<times> bool) \<times> solver)" where
  "optimizeObjective check g R_ij f_R_vars demands sv =
     (let sv1 = solver_push sv in
      bindE (addConstraints g R_ij f_R_vars demands sv1) (\<lambda>sv2.
      bindE (in_state sv2 (getObjectiveExpr g R_ij f_R_vars)) (\<lambda>objective.
      bindE (in_state sv2 (solver_minimize sv2 objective)) (\<lambda>sv3.
        case check (assertions sv3) (objectives sv3) of
          Some model \<Rightarrow> bindE (in_state sv3 (solver_pop sv3)) (\<lambda>sv4. Inr ((Some model, True), sv4))
        | None \<Rightarrow> bindE (in_state sv3 (solver_pop sv3)) (\<lambda>sv4. Inr ((None, False), sv4))))))"

text \<open>S2 and S3, \<open>setPricesHighToLow\<close>: first the estimate of the route flows.\<close>

definition P_MIN :: int where
  "P_MIN = 5"

definition P_MAX :: int where
  "P_MAX = 120"

definition P_DELTA :: int where
  "P_DELTA = 5"

fun route_prices :: "graph \<Rightarrow> route list \<Rightarrow> error + pyval list" where
  "route_prices g [] = Inr []"
| "route_prices g (route_edges # rest) =
     bindE (compute_route_price g route_edges) (\<lambda>p.
     bindE (route_prices g rest) (\<lambda>ps. Inr (p # ps)))"

text \<open>The list comprehension \<open>[(route_price / total) * demands[i]["d"] for ...]\<close>.\<close>

fun split_flows :: "pyval \<Rightarrow> demand list \<Rightarrow> nat \<Rightarrow> pyval list \<Rightarrow> error + pyval list" where
  "split_flows total_price demands i [] = Inr []"
| "split_flows total_price demands i (route_price # rest) =
     bindE (py_div route_price total_price) (\<lambda>share.
     bindE (nth_py demands i) (\<lambda>dm.
     bindE (py_mul share (PNum (dm_d dm))) (\<lambda>flow.
     bindE (split_flows total_price demands i rest) (\<lambda>more. Inr (flow # more)))))"

text \<open>
  The loop over \<open>R_ij\<close> assigns \<open>f_R_vars[i]\<close> in the list it was given: when a later
  demand raises, the entries of the earlier demands have been replaced.
\<close>

fun estimate_flows ::
  "graph \<Rightarrow> demand list \<Rightarrow> nat \<Rightarrow> route list list \<Rightarrow> pyval list list
     \<Rightarrow> (error \<times> pyval list list) + pyval list list" where
  "estimate_flows g demands i [] f_R_vars = Inr f_R_vars"
| "estimate_flows g demands i (routes # rest) f_R_vars =
     bindE (in_state f_R_vars (route_prices g routes)) (\<lambda>prices.
       if list_ex is_expr prices then estimate_flows g demands (Suc i) rest f_R_vars
       else
         bindE (in_state f_R_vars (py_sum prices)) (\<lambda>total_price.
         bindE (in_state f_R_vars (split_flows total_price demands i prices)) (\<lambda>flows.
           if i < length f_R_vars
           then estimate_flows g demands (Suc i) rest (f_R_vars[i := flows])
           else Inl (IndexError, f_R_vars))))"

text \<open>The copy of the graph with every symbolic price set to the price on trial.\<close>

definition has_symbolic :: "attrs \<Rightarrow> string \<Rightarrow> bool" where
  "has_symbolic data name = (case data name of None \<Rightarrow> False | Some v \<Rightarrow> is_expr v)"

definition map_attrs :: "(attrs \<Rightarrow> attrs) \<Rightarrow> graph \<Rightarrow> graph" where
  "map_attrs f g = g\<lparr> edges := map (\<lambda>(u, v, key, data). (u, v, key, f data)) (edges g) \<rparr>"

definition set_symbolic_prices :: "rat \<Rightarrow> graph \<Rightarrow> graph" where
  "set_symbolic_prices p g =
     map_attrs (\<lambda>data. if has_symbolic data ''price'' then data(''price'' \<mapsto> PNum p) else data) g"

text \<open>
  One pass of the while loop up to the \<open>pop\<close>: the answer of the solver and the solver.
  The graph that is changed is the copy.
\<close>

definition probe ::
  "(formula list \<Rightarrow> pyval list \<Rightarrow> 'm option) \<Rightarrow> bool \<Rightarrow> graph \<Rightarrow> route list list \<Rightarrow> pyval list list
     \<Rightarrow> demand list \<Rightarrow> int \<Rightarrow> solver \<Rightarrow> (error \<times> solver) + ('m option \<times> solver)" where
  "probe check with_obj g R_ij f_R_vars demands p_current sv =
     (let graph_copy = set_symbolic_prices (of_int p_current) g;
          sv1 = solver_push sv in
      bindE (addConstraints graph_copy R_ij f_R_vars demands sv1) (\<lambda>sv2.
      bindE (if with_obj
             then bindE (in_state sv2 (getObjectiveExpr graph_copy R_ij f_R_vars)) (\<lambda>objective.
                    in_state sv2 (solver_minimize sv2 objective))
             else Inr sv2) (\<lambda>sv3.
      bindE (in_state sv3 (solver_pop sv3)) (\<lambda>sv4.
        Inr (check (assertions sv3) (objectives sv3), sv4)))))"

text \<open>
  The while loop: \<open>isSat\<close> is \<open>sat\<close> whenever the condition is tested, so the loop
  runs while \<open>p_current >= P_MIN\<close> and leaves at the first answer that is not \<open>sat\<close>.
\<close>

function price_loop ::
  "(formula list \<Rightarrow> pyval list \<Rightarrow> 'm option) \<Rightarrow> bool \<Rightarrow> graph \<Rightarrow> route list list \<Rightarrow> pyval list list
     \<Rightarrow> demand list \<Rightarrow> int \<Rightarrow> 'm option \<Rightarrow> rat option \<Rightarrow> solver
     \<Rightarrow> (error \<times> solver) + (('m option \<times> rat option) \<times> solver)" where
  "price_loop check with_obj g R_ij f_R_vars demands p_current model last_sat_price sv =
     (if P_MIN \<le> p_current
      then (case probe check with_obj g R_ij f_R_vars demands p_current sv of
              Inl e \<Rightarrow> Inl e
            | Inr (None, sv4) \<Rightarrow> Inr ((model, last_sat_price), sv4)
            | Inr (Some m, sv4) \<Rightarrow>
                price_loop check with_obj g R_ij f_R_vars demands (p_current - P_DELTA)
                  (Some m) (Some (of_int p_current)) sv4)
      else Inr ((model, last_sat_price), sv))"
  by pat_completeness auto
termination
  by (relation "measure (\<lambda>(check, with_obj, g, R_ij, f_R_vars, demands, p_current, model, price, sv).
                            nat (p_current - P_MIN + 1))")
     (auto simp: P_MIN_def P_DELTA_def)

declare price_loop.simps [simp del]

text \<open>The update of the graph with the last price that was \<open>sat\<close> and its model.\<close>

definition write_back :: "('m \<Rightarrow> expr \<Rightarrow> string) \<Rightarrow> 'm \<Rightarrow> rat \<Rightarrow> graph \<Rightarrow> graph" where
  "write_back evaluate m last_sat_price g =
     map_attrs (\<lambda>data.
       let data1 = (if has_symbolic data ''price'' then data(''price'' \<mapsto> PNum last_sat_price) else data)
       in (case data1 ''f_e'' of
             Some (PExpr f_e) \<Rightarrow> data1(''f_e'' \<mapsto> PStr (evaluate m f_e))
           | _ \<Rightarrow> data1)) g"

text \<open>
  The strategy changes the list of route flows, the solver and, at the end, the graph.
  The estimate raises before anything is pushed; the while loop raises with the graph
  untouched and the route flows as the estimate left them.
\<close>

definition setPricesHighToLow ::
  "(formula list \<Rightarrow> pyval list \<Rightarrow> 'm option) \<Rightarrow> ('m \<Rightarrow> expr \<Rightarrow> string) \<Rightarrow> bool \<Rightarrow> graph
     \<Rightarrow> route list list \<Rightarrow> pyval list list \<Rightarrow> demand list \<Rightarrow> solver
     \<Rightarrow> (error \<times> graph \<times> pyval list list \<times> solver)
         + (('m option \<times> bool) \<times> graph \<times> pyval list list \<times> solver)" where
  "setPricesHighToLow check evaluate with_obj g R_ij f_R_vars demands sv =
     bindE (with_state (\<lambda>f_R_vars1. (g, f_R_vars1, sv))
              (estimate_flows g demands 0 R_ij f_R_vars)) (\<lambda>f_R_vars1.
     bindE (with_state (\<lambda>sv1. (g, f_R_vars1, sv1))
              (price_loop check with_obj g R_ij f_R_vars1 demands P_MAX None None sv)) (\<lambda>(found, sv1).
       case found of
         (Some m, Some last_sat_price) \<Rightarrow>
           Inr ((Some m, True), write_back evaluate m last_sat_price g, f_R_vars1, sv1)
       | (model, no_price) \<Rightarrow> Inr ((model, False), g, f_R_vars1, sv1)))"

definition setPricesHighToLowWO ::
  "(formula list \<Rightarrow> pyval list \<Rightarrow> 'm option) \<Rightarrow> ('m \<Rightarrow> expr \<Rightarrow> string) \<Rightarrow> graph
     \<Rightarrow> route list list \<Rightarrow> pyval list list \<Rightarrow> demand list \<Rightarrow> solver
     \<Rightarrow> (error \<times> graph \<times> pyval list list \<times> solver)
         + (('m option \<times> bool) \<times> graph \<times> pyval list list \<times> solver)" where
  "setPricesHighToLowWO check evaluate g R_ij f_R_vars demands sv =
     setPricesHighToLow check evaluate True g R_ij f_R_vars demands sv"

text \<open>
  S4, \<open>binarySearchCapacity\<close>: six passes; each sets every capacity to the midpoint and
  runs S1. \<open>left\<close> counts the passes still to run.
\<close>

fun bs_loop ::
  "(formula list \<Rightarrow> pyval list \<Rightarrow> 'm option) \<Rightarrow> route list list \<Rightarrow> pyval list list \<Rightarrow> demand list
     \<Rightarrow> nat \<Rightarrow> int \<Rightarrow> int \<Rightarrow> ('m option \<times> bool) \<Rightarrow> graph \<Rightarrow> solver
     \<Rightarrow> (error \<times> graph \<times> solver) + (('m option \<times> bool) \<times> graph \<times> solver)" where
  "bs_loop check R_ij f_R_vars demands 0 C_MIN C_MAX result g sv = Inr (result, g, sv)"
| "bs_loop check R_ij f_R_vars demands (Suc left) C_MIN C_MAX result g sv =
     (let c_current = (C_MIN + C_MAX) div 2;
          g1 = map_attrs (\<lambda>data. data(''capacity'' \<mapsto> PNum (of_int c_current))) g
      in bindE (with_state (\<lambda>sv1. (g1, sv1))
                  (optimizeObjective check g1 R_ij f_R_vars demands sv)) (\<lambda>(res, sv1).
           if snd res
           then bs_loop check R_ij f_R_vars demands left C_MIN c_current res g1 sv1
           else bs_loop check R_ij f_R_vars demands left c_current C_MAX res g1 sv1))"

definition binarySearchCapacity ::
  "(formula list \<Rightarrow> pyval list \<Rightarrow> 'm option) \<Rightarrow> graph \<Rightarrow> route list list \<Rightarrow> pyval list list
     \<Rightarrow> demand list \<Rightarrow> solver
     \<Rightarrow> (error \<times> graph \<times> solver) + (('m option \<times> bool) \<times> graph \<times> solver)" where
  "binarySearchCapacity check g R_ij f_R_vars demands sv =
     bs_loop check R_ij f_R_vars demands 6 500 5000 (None, False) g sv"

text \<open>
  S5, \<open>increaseCapacity\<close>: up to ten passes; each adds 50 to the capacity of every edge
  and runs S1. The edges are taken in the order of \<open>graph.edges\<close>, and
  \<open>data["capacity"] += C_Delta\<close> reads the attribute, adds and stores the sum in the
  dictionary of that edge: when an edge raises, the edges before it have their new
  capacity. \<open>(u, v, key)\<close> names one edge of the graph.
\<close>

definition C_Delta :: rat where
  "C_Delta = 50"

definition set_attr :: "graph \<Rightarrow> node \<Rightarrow> node \<Rightarrow> ekey \<Rightarrow> string \<Rightarrow> pyval \<Rightarrow> graph" where
  "set_attr g u v key name x =
     g\<lparr> edges := map (\<lambda>(a, b, k, data). if joins u v (a, b, k, data) \<and> k = key
                                         then (a, b, k, data(name \<mapsto> x)) else (a, b, k, data))
                      (edges g) \<rparr>"

fun bump_loop :: "edge list \<Rightarrow> graph \<Rightarrow> (error \<times> graph) + graph" where
  "bump_loop [] g = Inr g"
| "bump_loop ((u, v, key, data) # rest) g =
     bindE (in_state g (getattr data ''capacity'')) (\<lambda>c.
     bindE (in_state g (py_add c (PNum C_Delta))) (\<lambda>c1.
       bump_loop rest (set_attr g u v key ''capacity'' c1)))"

definition bump_capacities :: "graph \<Rightarrow> (error \<times> graph) + graph" where
  "bump_capacities g = bump_loop (edges_view g) g"

fun inc_loop ::
  "(formula list \<Rightarrow> pyval list \<Rightarrow> 'm option) \<Rightarrow> route list list \<Rightarrow> pyval list list \<Rightarrow> demand list
     \<Rightarrow> nat \<Rightarrow> ('m option \<times> bool) \<Rightarrow> graph \<Rightarrow> solver
     \<Rightarrow> (error \<times> graph \<times> solver) + (('m option \<times> bool) \<times> graph \<times> solver)" where
  "inc_loop check R_ij f_R_vars demands 0 result g sv = Inr (result, g, sv)"
| "inc_loop check R_ij f_R_vars demands (Suc left) result g sv =
     bindE (with_state (\<lambda>g1. (g1, sv)) (bump_capacities g)) (\<lambda>g1.
     bindE (with_state (\<lambda>sv1. (g1, sv1))
              (optimizeObjective check g1 R_ij f_R_vars demands sv)) (\<lambda>(res, sv1).
       if snd res then Inr (res, g1, sv1)
       else inc_loop check R_ij f_R_vars demands left res g1 sv1))"

definition increaseCapacity ::
  "(formula list \<Rightarrow> pyval list \<Rightarrow> 'm option) \<Rightarrow> graph \<Rightarrow> route list list \<Rightarrow> pyval list list
     \<Rightarrow> demand list \<Rightarrow> solver
     \<Rightarrow> (error \<times> graph \<times> solver) + (('m option \<times> bool) \<times> graph \<times> solver)" where
  "increaseCapacity check g R_ij f_R_vars demands sv =
     inc_loop check R_ij f_R_vars demands 10 (None, False) g sv"

section \<open>Reading and writing the graph file (graphParser.py)\<close>

text \<open>
  The text of the file is not modelled: a file is its JSON content, and a line of an
  edge list, \<open>"u v {attributes}"\<close>, is what \<open>nx.parse_edgelist\<close> reads from it: the two
  node names and the dictionary that \<open>literal_eval\<close> makes of the rest. Writing a line
  is taken to give the line that reads back as the same names and values. That is so for
  node names without blanks and for values that are finite numbers, \<open>None\<close> or strings
  without \<open>#\<close> and without two blanks in a row; other values (the float \<open>inf\<close>, which
  is written as a bare name) are no values of the model.

  \<open>file_k\<close> is \<open>data.get("k")\<close>, the coefficient per colour; \<open>file_networks\<close> is
  \<open>data.get("networks")\<close>, each network with what its \<open>get("edge_list")\<close> gives.
\<close>

type_synonym edge_line = "node \<times> node \<times> attrs"

record json_file =
  file_k :: "(string \<rightharpoonup> pyval) option"
  file_networks :: "edge_line list option list option"
  file_demands :: "demand list option"

text \<open>
  \<open>MultiGraph.new_edge_key\<close>: the number of edges between the two nodes, counted up
  while it is a key already. At most as many steps as there are keys are needed.
\<close>

fun next_free :: "nat \<Rightarrow> ekey list \<Rightarrow> nat \<Rightarrow> nat" where
  "next_free 0 keys n = n"
| "next_free (Suc fuel) keys n = (if IntKey n \<in> set keys then next_free fuel keys (Suc n) else n)"

definition new_edge_key :: "graph \<Rightarrow> node \<Rightarrow> node \<Rightarrow> ekey" where
  "new_edge_key g u v =
     (let keys = map fst (keydict g u v)
      in IntKey (next_free (Suc (length keys)) keys (length keys)))"

text \<open>
  \<open>nx.parse_edgelist(edge_list, create_using=nx.MultiGraph)\<close> adds every line with
  \<open>G.add_edge(u, v, **edgedata)\<close>, and the signature is
  \<open>add_edge(self, u_for_edge, v_for_edge, key=None, **attr)\<close>. So an entry \<open>'key'\<close>
  of the dictionary is the key of the edge and no attribute (\<open>None\<close> asks for a new
  key), and an entry named like one of the other parameters is a TypeError.
\<close>

definition empty_graph :: graph where
  "empty_graph = \<lparr> nodes = [], edges = [] \<rparr>"

definition key_of :: "pyval \<Rightarrow> ekey" where
  "key_of x =
     (case x of
        PNum q \<Rightarrow> if 0 \<le> q \<and> of_int \<lfloor>q\<rfloor> = q then IntKey (nat \<lfloor>q\<rfloor>) else OtherKey x
      | PStr s \<Rightarrow> StrKey s
      | _ \<Rightarrow> OtherKey x)"

definition add_line :: "graph \<Rightarrow> edge_line \<Rightarrow> error + graph" where
  "add_line g line =
     (case line of (u, v, edgedata) \<Rightarrow>
        if edgedata ''self'' \<noteq> None \<or> edgedata ''u_for_edge'' \<noteq> None
           \<or> edgedata ''v_for_edge'' \<noteq> None
        then Inl TypeError
        else
          let key = (case edgedata ''key'' of
                       None \<Rightarrow> new_edge_key g u v
                     | Some PNone \<Rightarrow> new_edge_key g u v
                     | Some x \<Rightarrow> key_of x)
          in Inr (add_edge g u v key (edgedata(''key'' := None))))"

fun parse_lines :: "graph \<Rightarrow> edge_line list \<Rightarrow> error + graph" where
  "parse_lines g [] = Inr g"
| "parse_lines g (line # rest) = bindE (add_line g line) (\<lambda>g1. parse_lines g1 rest)"

definition parse_edgelist :: "edge_line list \<Rightarrow> error + graph" where
  "parse_edgelist edge_list = parse_lines empty_graph edge_list"

text \<open>\<open>edge_list.extend(network.get("edge_list"))\<close> for every network.\<close>

fun collect_lines :: "edge_line list option list \<Rightarrow> error + edge_line list" where
  "collect_lines [] = Inr []"
| "collect_lines (None # rest) = Inl TypeError"
| "collect_lines (Some ls # rest) = bindE (collect_lines rest) (\<lambda>more. Inr (ls @ more))"

text \<open>
  \<open>not edge_data.get("k")\<close>: true when the attribute is missing, \<open>None\<close>, zero or empty.
\<close>

fun falsy :: "pyval option \<Rightarrow> bool" where
  "falsy None = True"
| "falsy (Some PNone) = True"
| "falsy (Some (PNum x)) = (x = 0)"
| "falsy (Some (PStr s)) = (s = [])"
| "falsy (Some (PExpr e)) = False"

text \<open>
  The loop that gives an edge without \<open>k\<close> the coefficient of its colour:
  \<open>data.get("k")[edge_data.get("color")]\<close>. Without a \<open>k\<close> table the subscript raises
  TypeError, without the colour in it KeyError; which edge raises first does not change
  the exception, so the edges are taken in the order they are stored.
\<close>

definition k_of_color :: "(string \<rightharpoonup> pyval) option \<Rightarrow> attrs \<Rightarrow> error + pyval" where
  "k_of_color table edge_data =
     (case table of
        None \<Rightarrow> Inl TypeError
      | Some t \<Rightarrow>
          (case edge_data ''color'' of
             Some (PStr c) \<Rightarrow> (case t c of None \<Rightarrow> Inl KeyError | Some k \<Rightarrow> Inr k)
           | _ \<Rightarrow> Inl KeyError))"

fun default_k :: "(string \<rightharpoonup> pyval) option \<Rightarrow> edge list \<Rightarrow> error + edge list" where
  "default_k table [] = Inr []"
| "default_k table ((u, v, key, edge_data) # rest) =
     bindE (if falsy (edge_data ''k'')
            then bindE (k_of_color table edge_data) (\<lambda>k. Inr (edge_data(''k'' \<mapsto> k)))
            else Inr edge_data) (\<lambda>data1.
     bindE (default_k table rest) (\<lambda>more. Inr ((u, v, key, data1) # more)))"

text \<open>\<open>parseGraph\<close>, the graph it returns (the demands are handed through unchanged).\<close>

definition parseGraph :: "json_file \<Rightarrow> error + graph" where
  "parseGraph f =
     (case file_networks f of
        None \<Rightarrow> Inl TypeError
      | Some networks \<Rightarrow>
          bindE (collect_lines networks) (\<lambda>edge_list.
          bindE (parse_edgelist edge_list) (\<lambda>g.
          bindE (default_k (file_k f) (edges g)) (\<lambda>es. Inr (g\<lparr> edges := es \<rparr>)))))"

text \<open>
  \<open>writeGraphToJSON\<close>: every attribute that is a z3 expression becomes \<open>None\<close>; the
  lines are those of \<open>nx.generate_edgelist\<close>, one per edge in the order of
  \<open>graph.edges\<close>, without the keys; the file has one network and nothing else.
\<close>

definition clean_attributes :: "attrs \<Rightarrow> attrs" where
  "clean_attributes data =
     (\<lambda>name. case data name of None \<Rightarrow> None
                | Some x \<Rightarrow> if is_expr x then Some PNone else Some x)"

definition writeGraphToJSON :: "graph \<Rightarrow> json_file" where
  "writeGraphToJSON g =
     \<lparr> file_k = None,
       file_networks = Some [Some (map (\<lambda>(u, v, key, data). (u, v, clean_attributes data))
                                       (edges_view g))],
       file_demands = None \<rparr>"

section \<open>Notions used in the proofs\<close>

text \<open>
  \<open>grows sv sv'\<close>: the solver \<open>sv'\<close> has the frames of \<open>sv\<close> and its assertions and
  objectives, followed by new ones.
\<close>

definition grows :: "solver \<Rightarrow> solver \<Rightarrow> bool" where
  "grows sv sv' =
     (frames sv' = frames sv
      \<and> take (length (assertions sv)) (assertions sv') = assertions sv
      \<and> take (length (objectives sv)) (objectives sv') = objectives sv)"

text \<open>
  The cost-proportional split of the demand \<open>d\<close> over routes with the numeric prices
  \<open>prices\<close>: route \<open>j\<close> gets \<open>(price_j / sum of the prices) * d\<close>.
\<close>

definition price_num :: "pyval \<Rightarrow> rat" where
  "price_num v = (case v of PNum x \<Rightarrow> x | _ \<Rightarrow> 0)"

definition proportional_split :: "pyval list \<Rightarrow> rat \<Rightarrow> pyval list" where
  "proportional_split prices d =
     map (\<lambda>p. PNum (price_num p / sum_list (map price_num prices) * d)) prices"

section \<open>What the Wardrop constraints are specified to be\<close>

text \<open>
  The value of an attribute of the edge \<open>(u, v, key)\<close> (\<open>None\<close> when the edge or the
  attribute is missing), and an edge that has a flow, a coefficient and a price that
  arithmetic accepts.
\<close>

definition edge_value :: "graph \<Rightarrow> string \<Rightarrow> node \<times> node \<times> ekey \<Rightarrow> pyval" where
  "edge_value g name e =
     (case e of (u, v, key) \<Rightarrow>
        (case map_of (keydict g u v) key of
           None \<Rightarrow> PNone
         | Some data \<Rightarrow> (case data name of None \<Rightarrow> PNone | Some x \<Rightarrow> x)))"

definition priced_edge :: "graph \<Rightarrow> node \<times> node \<times> ekey \<Rightarrow> bool" where
  "priced_edge g e =
     (arith (edge_value g ''f_e'' e) \<and> arith (edge_value g ''k'' e) \<and> arith (edge_value g ''price'' e))"

text \<open>
  The sum of a list of terms: the number when all terms are numbers, the symbolic sum
  when one of them is symbolic.
\<close>

definition total_val :: "pyval list \<Rightarrow> pyval" where
  "total_val ts =
     (if list_ex is_expr ts then PExpr (SumOf (map coerce ts))
      else PNum (sum_list (map price_num ts)))"

text \<open>\<open>cost_R\<close>: the sum over the edges of the route of \<open>k * f_e + price\<close>; \<open>price_R\<close>: the sum of the prices.\<close>

definition route_cost :: "graph \<Rightarrow> route \<Rightarrow> pyval" where
  "route_cost g route_edges =
     total_val (map (\<lambda>e. add_val (mul_val (edge_value g ''k'' e) (edge_value g ''f_e'' e))
                                   (edge_value g ''price'' e)) route_edges)"

definition route_price :: "graph \<Rightarrow> route \<Rightarrow> pyval" where
  "route_price g route_edges = total_val (map (edge_value g ''price'') route_edges)"

text \<open>
  C4: \<open>flow >= 1\<close> implies \<open>cost <= T + 5\<close> and \<open>cost >= T - 5\<close>.
  C5: \<open>flow <= 1\<close> implies \<open>price >= T - 5\<close>.
\<close>

definition wardrop_used :: "pyval \<Rightarrow> pyval \<Rightarrow> pyval \<Rightarrow> formula" where
  "wardrop_used flow T cost =
     Implies (ge_val flow (PNum 1))
             (And [le_val cost (add_val T (PNum 5)), ge_val cost (sub_val T (PNum 5))])"

definition wardrop_unused :: "pyval \<Rightarrow> pyval \<Rightarrow> pyval \<Rightarrow> formula" where
  "wardrop_unused flow T price =
     Implies (le_val flow (PNum 1)) (And [ge_val price (sub_val T (PNum 5))])"

definition wardrop_pair :: "graph \<Rightarrow> pyval \<Rightarrow> pyval \<times> route \<Rightarrow> formula list" where
  "wardrop_pair g T fr =
     (case fr of (flow, route_edges) \<Rightarrow>
        [wardrop_used flow T (route_cost g route_edges),
         wardrop_unused flow T (route_price g route_edges)])"

text \<open>
  Everything asserted for demand number \<open>i\<close>: nothing when an endpoint is no node of the
  graph; otherwise the conservation of the demand and, route by route, the two
  implications with the flow variable of the route and the variable \<open>T_i\<close>.
\<close>

definition demand_block ::
  "graph \<Rightarrow> route list list \<Rightarrow> pyval list list \<Rightarrow> nat \<times> demand \<Rightarrow> formula list" where
  "demand_block g R_ij f_R_vars idm =
     (case idm of (i, dm) \<Rightarrow>
        if \<not> has_node g (dm_s dm) \<or> \<not> has_node g (dm_t dm) then []
        else eq_val (total_val (f_R_vars ! i)) (PNum (dm_d dm))
             # concat (map (wardrop_pair g (PExpr (RealVar (''T_'' @ str_nat i))))
                           (zip (f_R_vars ! i) (R_ij ! i))))"

text \<open>
  The inputs on which the builder raises nothing: every demand with both endpoints in
  the graph has its list of flows (numbers or expressions, one per route at least) and
  its list of routes, over edges of the graph that have a flow, a coefficient and a price.
\<close>

definition demand_ok :: "graph \<Rightarrow> route list list \<Rightarrow> pyval list list \<Rightarrow> nat \<times> demand \<Rightarrow> bool" where
  "demand_ok g R_ij f_R_vars idm =
     (case idm of (i, dm) \<Rightarrow>
        (\<not> has_node g (dm_s dm) \<or> \<not> has_node g (dm_t dm))
        \<or> (i < length f_R_vars \<and> i < length R_ij
            \<and> list_all arith (f_R_vars ! i)
            \<and> length (R_ij ! i) \<le> length (f_R_vars ! i)
            \<and> list_all (list_all (priced_edge g)) (R_ij ! i)))"

definition inputs_ok :: "graph \<Rightarrow> route list list \<Rightarrow> pyval list list \<Rightarrow> demand list \<Rightarrow> bool" where
  "inputs_ok g R_ij f_R_vars demands = list_all (demand_ok g R_ij f_R_vars) (enumerate 0 demands)"

section \<open>Notions for the round trip through the file\<close>

text \<open>The key dictionary between two nodes that a list of edges holds.\<close>

definition keydict_of :: "edge list \<Rightarrow> node \<Rightarrow> node \<Rightarrow> (ekey \<times> attrs) list" where
  "keydict_of es u v = map (\<lambda>(x, y, k, a). (k, a)) (filter (joins u v) es)"

text \<open>The keys between any two nodes are \<open>0, 1, 2, ...\<close> in this order, as the parser gives them.\<close>

definition counted_keys :: "edge list \<Rightarrow> bool" where
  "counted_keys es =
     (\<forall>u v. map fst (keydict_of es u v) = map IntKey [0..<length (keydict_of es u v)])"

text \<open>The endpoints of the edges are nodes, and no node is listed twice.\<close>

definition well_formed :: "graph \<Rightarrow> bool" where
  "well_formed g =
     (distinct (nodes g) \<and> (\<forall>(x, y, k, a) \<in> set (edges g). x \<in> set (nodes g) \<and> y \<in> set (nodes g)))"

text \<open>The nodes that the edges of a list touch.\<close>

definition ends :: "edge list \<Rightarrow> node set" where
  "ends es = (\<Union>(x, y, k, a) \<in> set es. {x, y})"

text \<open>
  What the parser builds from lines that name no key: distinct nodes, which are the
  endpoints, and counted keys.
\<close>

definition parsed :: "graph \<Rightarrow> bool" where
  "parsed g = (distinct (nodes g) \<and> set (nodes g) = ends (edges g) \<and> counted_keys (edges g))"

text \<open>The edges of a list without their attributes.\<close>

definition shape :: "edge list \<Rightarrow> (node \<times> node \<times> ekey) list" where
  "shape es = map (\<lambda>(u, v, k, a). (u, v, k)) es"

text \<open>
  No attribute is named like a parameter of \<open>add_edge\<close>, so that a line written from
  the dictionary is read back with every entry as an attribute.
\<close>

definition no_params :: "attrs \<Rightarrow> bool" where
  "no_params a = (a ''key'' = None \<and> a ''self'' = None \<and> a ''u_for_edge'' = None
                  \<and> a ''v_for_edge'' = None)"

text \<open>What the parser builds whatever keys the lines name.\<close>

definition tidy :: "graph \<Rightarrow> bool" where
  "tidy g = (distinct (nodes g) \<and> set (nodes g) = ends (edges g)
             \<and> list_all (\<lambda>(x, y, k, a). no_params a) (edges g))"

section \<open>Example inputs\<close>

text \<open>The network of data/example.json as the parser tests show it: two parallel edges.\<close>

definition red_attrs :: attrs where
  "red_attrs = [''color'' \<mapsto> PStr ''red'', ''capacity'' \<mapsto> PNum 100,
                ''price'' \<mapsto> PNum 5, ''k'' \<mapsto> PNum 1]"

definition bus_attrs :: attrs where
  "bus_attrs = [''color'' \<mapsto> PStr ''Bus'', ''capacity'' \<mapsto> PNum 500,
                ''price'' \<mapsto> PNum 5, ''k'' \<mapsto> PNum 2]"

definition example_graph :: graph where
  "example_graph = \<lparr> nodes = [''A'', ''C''],
                      edges = [(''A'', ''C'', IntKey 0, red_attrs),
                               (''A'', ''C'', IntKey 1, bus_attrs)] \<rparr>"

definition demand_XY :: demand where
  "demand_XY = \<lparr> dm_s = ''X'', dm_t = ''Y'', dm_d = 10 \<rparr>"

definition demand_AC :: demand where
  "demand_AC = \<lparr> dm_s = ''A'', dm_t = ''C'', dm_d = 120 \<rparr>"

text \<open>
  Two shortest node paths from \<open>A\<close> to \<open>D\<close>: over \<open>B\<close> with three times two parallel
  edges (six routes), and over \<open>C\<close> with one route.
\<close>

definition plain_attrs :: attrs where
  "plain_attrs = [''color'' \<mapsto> PStr ''red'', ''capacity'' \<mapsto> PNum 100,
                  ''price'' \<mapsto> PNum 5, ''k'' \<mapsto> PNum 1]"

definition diamond_graph :: graph where
  "diamond_graph = \<lparr> nodes = [''A'', ''B'', ''D'', ''C''],
      edges = [(''A'', ''B'', IntKey 0, plain_attrs), (''A'', ''B'', IntKey 1, plain_attrs),
               (''A'', ''B'', IntKey 2, plain_attrs),
               (''B'', ''D'', IntKey 0, plain_attrs), (''B'', ''D'', IntKey 1, plain_attrs),
               (''A'', ''C'', IntKey 0, plain_attrs), (''C'', ''D'', IntKey 0, plain_attrs)] \<rparr>"

definition demand_AD :: demand where
  "demand_AD = \<lparr> dm_s = ''A'', dm_t = ''D'', dm_d = 10 \<rparr>"

text \<open>
  The example network after \<open>addVarsForSolver\<close>: every edge has its flow variable
  \<open>f_u-v-color\<close>; with it the routes of the demand from \<open>A\<close> to \<open>C\<close>, their flow
  variables \<open>flow_0_0\<close> and \<open>flow_0_1\<close>, and a solver nothing was added to.
\<close>

definition example_vars_graph :: graph where
  "example_vars_graph = \<lparr> nodes = [''A'', ''C''],
      edges = [(''A'', ''C'', IntKey 0, red_attrs(''f_e'' \<mapsto> PExpr (RealVar ''f_A-C-red''))),
               (''A'', ''C'', IntKey 1, bus_attrs(''f_e'' \<mapsto> PExpr (RealVar ''f_A-C-Bus'')))] \<rparr>"

definition example_routes :: "route list list" where
  "example_routes = [[[(''A'', ''C'', IntKey 0)], [(''A'', ''C'', IntKey 1)]]]"

definition example_flows :: "pyval list list" where
  "example_flows = [[PExpr (RealVar ''flow_0_0''), PExpr (RealVar ''flow_0_1'')]]"

definition empty_solver :: solver where
  "empty_solver = \<lparr> assertions = [], objectives = [], frames = [] \<rparr>"

text \<open>A solver that never answers \<open>sat\<close>.\<close>

definition never_sat :: "formula list \<Rightarrow> pyval list \<Rightarrow> unit option" where
  "never_sat asserted objs = None"

definition no_text :: "unit \<Rightarrow> expr \<Rightarrow> string" where
  "no_text m e = []"

text \<open>An edge without the attribute \<open>capacity\<close>, and an edge whose ticket is free.\<close>

definition uncapped_graph :: graph where
  "uncapped_graph = \<lparr> nodes = [''A'', ''C''],
      edges = [(''A'', ''C'', IntKey 0,
                [''color'' \<mapsto> PStr ''red'', ''price'' \<mapsto> PNum 5, ''k'' \<mapsto> PNum 1,
                 ''f_e'' \<mapsto> PExpr (RealVar ''f_A-C-red'')])] \<rparr>"

definition free_graph :: graph where
  "free_graph = \<lparr> nodes = [''A'', ''C''],
      edges = [(''A'', ''C'', IntKey 0,
                [''color'' \<mapsto> PStr ''red'', ''capacity'' \<mapsto> PNum 100, ''price'' \<mapsto> PNum 0,
                 ''k'' \<mapsto> PNum 1, ''f_e'' \<mapsto> PExpr (RealVar ''f_A-C-red'')])] \<rparr>"

definition single_route :: "route list list" where
  "single_route = [[[(''A'', ''C'', IntKey 0)]]]"

definition single_flow :: "pyval list list" where
  "single_flow = [[PExpr (RealVar ''flow_0_0'')]]"

text \<open>
  One edge, added as \<open>A C\<close>, and the demand that travels it from \<open>C\<close> to \<open>A\<close>.
\<close>

definition one_edge_graph :: graph where
  "one_edge_graph = \<lparr> nodes = [''A'', ''C''],
      edges = [(''A'', ''C'', IntKey 0, red_attrs(''f_e'' \<mapsto> PExpr (RealVar ''f_A-C-red'')))] \<rparr>"

definition demand_CA :: demand where
  "demand_CA = \<lparr> dm_s = ''C'', dm_t = ''A'', dm_d = 120 \<rparr>"

text \<open>
  The file of the example network, and a file whose table gives the colour \<open>red\<close> the
  coefficient 0, with the graph the parser makes of it.
\<close>

definition example_file :: json_file where
  "example_file =
     \<lparr> file_k = Some [''red'' \<mapsto> PNum 1, ''Bus'' \<mapsto> PNum 2],
       file_networks = Some [Some
         [(''A'', ''C'', [''color'' \<mapsto> PStr ''red'', ''capacity'' \<mapsto> PNum 100, ''price'' \<mapsto> PNum 5]),
          (''A'', ''C'', [''color'' \<mapsto> PStr ''Bus'', ''capacity'' \<mapsto> PNum 500, ''price'' \<mapsto> PNum 5])]],
       file_demands = Some [demand_AC] \<rparr>"

definition zero_k_file :: json_file where
  "zero_k_file =
     \<lparr> file_k = Some [''red'' \<mapsto> PNum 0],
       file_networks = Some [Some
         [(''A'', ''C'', [''color'' \<mapsto> PStr ''red'', ''capacity'' \<mapsto> PNum 100, ''price'' \<mapsto> PNum 5])]],
       file_demands = Some [demand_AC] \<rparr>"

definition zero_k_graph :: graph where
  "zero_k_graph = \<lparr> nodes = [''A'', ''C''],
      edges = [(''A'', ''C'', IntKey 0,
                [''color'' \<mapsto> PStr ''red'', ''capacity'' \<mapsto> PNum 100, ''price'' \<mapsto> PNum 5,
                 ''k'' \<mapsto> PNum 0])] \<rparr>"

text \<open>
  A file whose only line names the key of its edge,
  \<open>"A C {'key': 5, 'color': 'red', 'capacity': 100, 'price': 5}"\<close>, the graph the parser
  makes of it, and the same graph with the key 0.
\<close>

definition keyed_file :: json_file where
  "keyed_file =
     \<lparr> file_k = Some [''red'' \<mapsto> PNum 1],
       file_networks = Some [Some
         [(''A'', ''C'', [''key'' \<mapsto> PNum 5, ''color'' \<mapsto> PStr ''red'', ''capacity'' \<mapsto> PNum 100,
                         ''price'' \<mapsto> PNum 5])]],
       file_demands = Some [demand_AC] \<rparr>"

definition keyed_graph :: "nat \<Rightarrow> graph" where
  "keyed_graph key = \<lparr> nodes = [''A'', ''C''],
      edges = [(''A'', ''C'', IntKey key,
                [''color'' \<mapsto> PStr ''red'', ''capacity'' \<mapsto> PNum 100, ''price'' \<mapsto> PNum 5,
                 ''k'' \<mapsto> PNum 1])] \<rparr>"

section \<open>Facts about the graph and the route enumerator\<close>

lemma bindE_Inr: "bindE (Inr x) f = f x"
  by (simp add: bindE_def)

lemma bindE_Inl: "bindE (Inl e) f = Inl e"
  by (simp add: bindE_def)

lemma in_state_Inr [simp]: "in_state s (Inr x) = Inr x"
  by (simp add: in_state_def)

lemma in_state_Inl [simp]: "in_state s (Inl e) = Inl (e, s)"
  by (simp add: in_state_def)

lemma in_state_eq_Inr [simp]: "(in_state s m = Inr x) = (m = Inr x)"
  by (cases m) simp_all

lemma with_state_Inr [simp]: "with_state f (Inr x) = Inr x"
  by (simp add: with_state_def)

lemma with_state_Inl [simp]: "with_state f (Inl (e, s)) = Inl (e, f s)"
  by (simp add: with_state_def)

lemma with_state_eq_Inr [simp]: "(with_state f m = Inr x) = (m = Inr x)"
  by (cases m) (auto simp: with_state_def)

lemma set_uniq: "set (uniq xs) = set xs"
  by (simp add: uniq_def)

lemma keydict_nonempty_iff: "keydict g u v \<noteq> [] \<longleftrightarrow> (\<exists>e \<in> set (edges g). joins u v e)"
  by (auto simp: keydict_def filter_empty_conv)

lemma joins_nbr: "joins u v e \<Longrightarrow> touches u e \<and> other_end u e = v"
  by (auto simp: joins_def touches_def other_end_def split: prod.splits)

lemma set_nbrs: "keydict g u v \<noteq> [] \<Longrightarrow> v \<in> set (nbrs g u)"
  unfolding nbrs_def set_uniq keydict_nonempty_iff
  using joins_nbr by force

lemma set_edge_targets: "set (edge_targets g u) = {v. keydict g u v \<noteq> []}"
proof -
  have img: "(\<lambda>ka. v) ` set (keydict g u v) = (if keydict g u v = [] then {} else {v})" for v
    by (cases "keydict g u v") auto
  have "set (edge_targets g u) = {v \<in> set (nbrs g u). keydict g u v \<noteq> []}"
    unfolding edge_targets_def set_concat set_map image_image img by auto
  then show ?thesis using set_nbrs by auto
qed

lemma dfs_sound:
  "p \<in> set (simple_paths_dfs g t n visited u) \<Longrightarrow>
   \<exists>q. p = rev visited @ u # q \<and> q \<noteq> [] \<and> is_walk g (u # q) \<and> last q = t \<and> distinct q
       \<and> set q \<inter> set (u # visited) = {} \<and> length q \<le> n"
proof (induction n arbitrary: visited u p)
  case 0
  then show ?case by simp
next
  case (Suc n)
  from Suc.prems obtain v where v: "v \<in> set (edge_targets g u)" "v \<notin> set (u # visited)"
    and p: "p \<in> set (if v = t then [rev (v # u # visited)] else simple_paths_dfs g t n (u # visited) v)"
    by (auto split: if_splits)
  have kd: "keydict g u v \<noteq> []" using v(1) by (simp add: set_edge_targets)
  show ?case
  proof (cases "v = t")
    case True
    with p have "p = rev visited @ u # [v]" by simp
    with True kd v(2) show ?thesis by auto
  next
    case False
    with p have "p \<in> set (simple_paths_dfs g t n (u # visited) v)" by simp
    from Suc.IH[OF this] obtain q where q: "p = rev (u # visited) @ v # q" "q \<noteq> []" "is_walk g (v # q)"
      "last q = t" "distinct q" "set q \<inter> set (v # u # visited) = {}" "length q \<le> n" by blast
    have "p = rev visited @ u # (v # q)" using q(1) by simp
    moreover have "is_walk g (u # v # q)" using kd q(3) by simp
    moreover have "distinct (v # q)" using q(5,6) by auto
    moreover have "set (v # q) \<inter> set (u # visited) = {}" using q(6) v(2) by auto
    ultimately show ?thesis using q(2,4,7) by (intro exI[of _ "v # q"]) auto
  qed
qed

lemma dfs_complete:
  "q \<noteq> [] \<Longrightarrow> is_walk g (u # q) \<Longrightarrow> last q = t \<Longrightarrow> distinct q \<Longrightarrow>
   set q \<inter> set (u # visited) = {} \<Longrightarrow> length q \<le> n \<Longrightarrow>
   rev visited @ u # q \<in> set (simple_paths_dfs g t n visited u)"
proof (induction n arbitrary: visited u q)
  case 0
  then show ?case by simp
next
  case (Suc n)
  then obtain v q' where q: "q = v # q'" by (cases q) auto
  have kd: "keydict g u v \<noteq> []" using Suc.prems(2) q by simp
  then have vin: "v \<in> set (edge_targets g u)" by (simp add: set_edge_targets)
  have vfresh: "v \<notin> set (u # visited)" using Suc.prems(5) q by auto
  show ?case
  proof (cases "v = t")
    case True
    have "q' = []"
    proof (rule ccontr)
      assume "q' \<noteq> []"
      then have "last q' = t" using Suc.prems(3) q by simp
      then have "t \<in> set q'" using \<open>q' \<noteq> []\<close> last_in_set by metis
      then show False using Suc.prems(4) q True by simp
    qed
    then have "rev visited @ u # q = rev (v # u # visited)" using q by simp
    then show ?thesis using vin vfresh True by (auto intro!: bexI[of _ v])
  next
    case False
    then have ne: "q' \<noteq> []" using Suc.prems(3) q by auto
    have "rev (u # visited) @ v # q' \<in> set (simple_paths_dfs g t n (u # visited) v)"
      using Suc.prems q ne by (intro Suc.IH) auto
    then show ?thesis using vin vfresh False q by (auto intro!: bexI[of _ v])
  qed
qed

lemma temp_list_walk: "is_walk g p \<Longrightarrow> temp_list g p = Inr (hop_options g p)"
  by (induction g p rule: temp_list.induct) (auto simp: getitem_uv_def bindE_def)

lemma hop_options_nonempty: "is_walk g p \<Longrightarrow> [] \<notin> set (hop_options g p)"
  by (induction g p rule: hop_options.induct) auto

lemma product_lists_nonempty: "[] \<notin> set xss \<Longrightarrow> product_lists xss \<noteq> []"
  by (induction xss) auto

lemma expand_paths_walks:
  "\<forall>p \<in> set ps. is_walk g p \<Longrightarrow> expand_paths g ps = Inr (routes_of_paths g ps)"
  by (induction ps) (auto simp: routes_of_paths_def temp_list_walk bindE_def)

lemma routes_of_paths_nonempty:
  "ps \<noteq> [] \<Longrightarrow> \<forall>p \<in> set ps. is_walk g p \<Longrightarrow> routes_of_paths g ps \<noteq> []"
  by (cases ps) (auto simp: routes_of_paths_def product_lists_nonempty hop_options_nonempty)

lemma all_simple_paths_walk:
  "p \<in> set (all_simple_paths trivial g s t n) \<Longrightarrow> simple_path g s t p \<and> length p \<le> Suc n"
proof (cases "s = t")
  case True
  assume "p \<in> set (all_simple_paths trivial g s t n)"
  with True show ?thesis by (auto simp: all_simple_paths_def simple_path_def split: if_splits)
next
  case False
  assume "p \<in> set (all_simple_paths trivial g s t n)"
  with False have "p \<in> set (simple_paths_dfs g t n [] s)" by (simp add: all_simple_paths_def)
  from dfs_sound[OF this] obtain q where q: "p = s # q" "q \<noteq> []" "is_walk g (s # q)" "last q = t"
    "distinct q" "set q \<inter> set [s] = {}" "length q \<le> n" by auto
  then show ?thesis by (auto simp: simple_path_def)
qed

lemma all_simple_paths_complete:
  assumes "s \<noteq> t" "simple_path g s t p" "length p \<le> Suc n"
  shows "p \<in> set (all_simple_paths trivial g s t n)"
proof -
  from assms obtain q where q: "p = s # q" by (cases p) (auto simp: simple_path_def)
  with assms have "q \<noteq> []" by (auto simp: simple_path_def)
  with assms q have "rev [] @ s # q \<in> set (simple_paths_dfs g t n [] s)"
    by (intro dfs_complete) (auto simp: simple_path_def)
  with assms(1) q show ?thesis by (simp add: all_simple_paths_def)
qed


lemma min_list_in: "xs \<noteq> [] \<Longrightarrow> min_list xs \<in> set (xs :: nat list)"
proof (induction xs)
  case Nil then show ?case by simp
next
  case (Cons x xs)
  show ?case
  proof (cases xs)
    case Nil then show ?thesis by simp
  next
    case (Cons y ys)
    then have "min_list (x # xs) = min x (min_list xs)" by simp
    moreover have "min_list xs \<in> set xs" using Cons.IH \<open>xs = y # ys\<close> by blast
    ultimately show ?thesis by (simp add: min_def)
  qed
qed

lemma min_list_le: "x \<in> set xs \<Longrightarrow> min_list xs \<le> (x :: nat)"
proof (induction xs)
  case Nil then show ?case by simp
next
  case (Cons y xs)
  show ?case
  proof (cases xs)
    case Nil then show ?thesis using Cons.prems by simp
  next
    case (Cons z zs)
    then have eq: "min_list (y # xs) = min y (min_list xs)" by simp
    show ?thesis
    proof (cases "x = y")
      case True then show ?thesis unfolding eq by simp
    next
      case False
      then have "x \<in> set xs" using Cons.prems by simp
      then have "min_list xs \<le> x" by (rule Cons.IH)
      then show ?thesis unfolding eq by simp
    qed
  qed
qed

text \<open>The two outcomes of one iteration.\<close>

lemma route_step_synthetic:
  assumes "\<not> has_node g (dm_s dm) \<or> \<not> has_node g (dm_t dm) \<or> all_simple_paths trivial g (dm_s dm) (dm_t dm) max_hops = []"
  shows "route_step set_order trivial max_hops g dm =
           Inr (add_edge g (dm_s dm) (dm_t dm) (default_key (dm_s dm) (dm_t dm)) default_attr, synthetic_route dm)"
  using assms by (auto simp: route_step_def Let_def synthetic_route_def)

lemma route_step_paths:
  assumes "has_node g (dm_s dm)" "has_node g (dm_t dm)"
    and "all_simple_paths trivial g (dm_s dm) (dm_t dm) max_hops \<noteq> []"
    and "valid_set_order set_order"
  shows "route_step set_order trivial max_hops g dm =
           Inr (g, take MAX_ROUTES_PER_DEMAND (routes_of_paths g (set_order (shortest_listed trivial g dm max_hops))))"
    and "routes_of_paths g (set_order (shortest_listed trivial g dm max_hops)) \<noteq> []"
proof -
  let ?nps = "all_simple_paths trivial g (dm_s dm) (dm_t dm) max_hops"
  let ?sh = "shortest_listed trivial g dm max_hops"
  have d: "distinct ?sh" by (simp add: shortest_listed_def Let_def)
  with assms(4) have so: "set (set_order ?sh) = set ?sh" by (simp add: valid_set_order_def)
  have "min_list (map length ?nps) \<in> set (map length ?nps)" using assms(3) by (intro min_list_in) simp
  then have ne: "?sh \<noteq> []" by (auto simp: shortest_listed_def Let_def filter_empty_conv)
  then have ne': "set_order ?sh \<noteq> []" using so by (metis set_empty)
  have "set ?sh \<subseteq> set ?nps" by (auto simp: shortest_listed_def Let_def)
  then have w: "\<forall>p \<in> set (set_order ?sh). is_walk g p"
    using so all_simple_paths_walk by (auto simp: simple_path_def)
  show "routes_of_paths g (set_order ?sh) \<noteq> []" using ne' w by (rule routes_of_paths_nonempty)
  show "route_step set_order trivial max_hops g dm =
           Inr (g, take MAX_ROUTES_PER_DEMAND (routes_of_paths g (set_order ?sh)))"
    using assms(1-3) expand_paths_walks[OF w]
    by (simp add: route_step_def Let_def shortest_listed_def bindE_def)
qed

lemma route_step_total:
  assumes "valid_set_order set_order"
  shows "\<exists>g' rs. route_step set_order trivial max_hops g dm = Inr (g', rs) \<and> rs \<noteq> [] \<and> length rs \<le> 6"
proof (cases "\<not> has_node g (dm_s dm) \<or> \<not> has_node g (dm_t dm)
               \<or> all_simple_paths trivial g (dm_s dm) (dm_t dm) max_hops = []")
  case True
  from route_step_synthetic[OF this] show ?thesis by (simp add: synthetic_route_def)
next
  case False
  then have h: "has_node g (dm_s dm)" "has_node g (dm_t dm)"
    "all_simple_paths trivial g (dm_s dm) (dm_t dm) max_hops \<noteq> []" by auto
  from route_step_paths[OF h assms] show ?thesis by (simp add: MAX_ROUTES_PER_DEMAND_def)
qed

lemma getAllPossibleRoutes_total:
  assumes "valid_set_order set_order"
  shows "\<exists>g' R_ij. getAllPossibleRoutes set_order trivial max_hops g demands = Inr (g', R_ij)
           \<and> length R_ij = length demands \<and> (\<forall>rs \<in> set R_ij. rs \<noteq> [] \<and> length rs \<le> 6)"
proof (induction demands arbitrary: g)
  case Nil
  then show ?case by simp
next
  case (Cons dm demands)
  from route_step_total[OF assms] obtain g1 rs where
    st: "route_step set_order trivial max_hops g dm = Inr (g1, rs)" "rs \<noteq> []" "length rs \<le> 6"
    by blast
  from Cons.IH[of g1] obtain g2 R where
    rest: "getAllPossibleRoutes set_order trivial max_hops g1 demands = Inr (g2, R)"
      "length R = length demands" "\<forall>rs \<in> set R. rs \<noteq> [] \<and> length rs \<le> 6" by blast
  have "getAllPossibleRoutes set_order trivial max_hops g (dm # demands) = Inr (g2, rs # R)"
    using st(1) rest(1) by (simp add: bindE_def)
  then show ?case using st(2,3) rest(2,3) by simp
qed

lemma graph_at_0: "graph_at set_order trivial max_hops g demands 0 = g"
  by (cases demands) auto

lemma getAllPossibleRoutes_nth:
  "getAllPossibleRoutes set_order trivial max_hops g demands = Inr (g', R_ij) \<Longrightarrow> i < length demands \<Longrightarrow>
   route_step set_order trivial max_hops (graph_at set_order trivial max_hops g demands i) (demands ! i)
     = Inr (graph_at set_order trivial max_hops g demands (Suc i), R_ij ! i)"
proof (induction demands arbitrary: g i R_ij)
  case Nil
  then show ?case by simp
next
  case (Cons dm demands)
  from Cons.prems(1) obtain g1 rs R where
    st: "route_step set_order trivial max_hops g dm = Inr (g1, rs)"
    and rest: "getAllPossibleRoutes set_order trivial max_hops g1 demands = Inr (g', R)"
    and R: "R_ij = rs # R"
    by (auto simp: bindE_def split: sum.splits prod.splits)
  show ?case
  proof (cases i)
    case 0
    then show ?thesis using st R by (simp add: graph_at_0)
  next
    case (Suc j)
    then have "j < length demands" using Cons.prems(2) by simp
    from Cons.IH[OF rest this] show ?thesis using Suc st R by simp
  qed
qed

lemma add_edge_has_edge:
  "\<exists>a. (key, a) \<in> set (keydict (add_edge g u v key attr) u v) \<and> (\<forall>n x. attr n = Some x \<longrightarrow> a n = Some x)"
proof (cases "key \<in> fst ` set (keydict g u v)")
  case True
  then obtain x y a where e: "(x, y, key, a) \<in> set (edges g)" "joins u v (x, y, key, a)"
    by (auto simp: keydict_def)
  have j: "joins u v (x, y, key, a ++ attr)" using e(2) by (simp add: joins_def)
  have "(x, y, key, a ++ attr) \<in> set (edges (add_edge g u v key attr))"
    using True e by (force simp: add_edge_def)
  with j have "(key, a ++ attr) \<in> set (keydict (add_edge g u v key attr) u v)"
    by (force simp: keydict_def)
  then show ?thesis by (intro exI[of _ "a ++ attr"]) (auto simp: map_add_def)
next
  case False
  then have "(key, attr) \<in> set (keydict (add_edge g u v key attr) u v)"
    by (simp add: add_edge_def keydict_def joins_def)
  then show ?thesis by blast
qed

lemma add_edge_has_nodes: "has_node (add_edge g u v key attr) u \<and> has_node (add_edge g u v key attr) v"
  by (simp add: add_edge_def has_node_def add_nodes_def Let_def)


lemma simple_path_self: "simple_path g s s p \<Longrightarrow> p = [s]"
proof -
  assume a: "simple_path g s s p"
  then obtain x xs where p: "p = x # xs" by (cases p) (auto simp: simple_path_def)
  show ?thesis
  proof (cases xs)
    case Nil
    with a p show ?thesis by (simp add: simple_path_def)
  next
    case (Cons y ys)
    with a p have "last (y # ys) = x" "x \<notin> set (y # ys)" by (auto simp: simple_path_def)
    moreover have "last (y # ys) \<in> set (y # ys)" by (rule last_in_set) simp
    ultimately show ?thesis by simp
  qed
qed

lemma simple_path_trivial: "simple_path g s s [s]"
  by (simp add: simple_path_def)

lemma set_all_simple_paths:
  assumes "s \<noteq> t \<or> trivial"
  shows "set (all_simple_paths trivial g s t n) = {p. simple_path g s t p \<and> length p \<le> Suc n}"
proof (intro equalityI subsetI)
  fix p assume "p \<in> set (all_simple_paths trivial g s t n)"
  then have "simple_path g s t p \<and> length p \<le> Suc n" by (rule all_simple_paths_walk)
  then show "p \<in> {p. simple_path g s t p \<and> length p \<le> Suc n}" by simp
next
  fix p assume "p \<in> {p. simple_path g s t p \<and> length p \<le> Suc n}"
  then have sp: "simple_path g s t p" and len: "length p \<le> Suc n" by simp_all
  show "p \<in> set (all_simple_paths trivial g s t n)"
  proof (cases "s = t")
    case True
    with sp have "p = [s]" using simple_path_self by blast
    moreover from True assms have trivial by simp
    ultimately show ?thesis using True by (simp add: all_simple_paths_def)
  next
    case False
    then show ?thesis using sp len by (rule all_simple_paths_complete)
  qed
qed

lemma all_simple_paths_none:
  assumes "\<forall>p. simple_path g s t p \<longrightarrow> Suc n < length p"
  shows "all_simple_paths trivial g s t n = []"
proof -
  have "s \<noteq> t" using assms simple_path_trivial[of g s] by auto
  then have "set (all_simple_paths trivial g s t n) = {p. simple_path g s t p \<and> length p \<le> Suc n}"
    by (intro set_all_simple_paths) simp
  also have "\<dots> = {}" using assms by auto
  finally show ?thesis by simp
qed

lemma synthetic_cases:
  assumes "\<not> has_node g s \<or> \<not> has_node g t \<or> (\<forall>p. simple_path g s t p \<longrightarrow> Suc n < length p)"
  shows "\<not> has_node g s \<or> \<not> has_node g t \<or> all_simple_paths trivial g s t n = []"
proof (cases "\<forall>p. simple_path g s t p \<longrightarrow> Suc n < length p")
  case True
  then have "all_simple_paths trivial g s t n = []" by (rule all_simple_paths_none)
  then show ?thesis by simp
next
  case False
  with assms have "\<not> has_node g s \<or> \<not> has_node g t" by blast
  then show ?thesis by blast
qed

lemma valid_set_order_id: "valid_set_order (\<lambda>ps. ps)"
  by (simp add: valid_set_order_def)

lemma valid_set_order_rev: "valid_set_order rev"
  by (simp add: valid_set_order_def)

section \<open>Facts about the solver frames\<close>

lemma bindE_InrE:
  assumes "bindE m f = Inr y"
  obtains x where "m = Inr x" and "f x = Inr y"
  using assms by (cases m) (auto simp: bindE_def)

lemma grows_refl: "grows sv sv"
  by (simp add: grows_def)

lemma grows_trans: "grows a b \<Longrightarrow> grows b c \<Longrightarrow> grows a c"
proof -
  assume ab: "grows a b" and bc: "grows b c"
  have pre: "take (length xs) zs = xs" if "take (length xs) ys = xs" "take (length ys) zs = ys"
    for xs ys zs :: "'a list"
  proof -
    from that(1) have "length xs \<le> length ys" by (metis nat_le_linear take_all)
    then have "take (length xs) zs = take (length xs) (take (length ys) zs)" by (simp add: min_def)
    with that show ?thesis by simp
  qed
  from ab bc show ?thesis unfolding grows_def by (auto intro: pre)
qed

lemma grows_add: "grows sv (solver_add sv f)"
  by (simp add: grows_def solver_add_def)

lemma grows_minimize: "solver_minimize sv ob = Inr sv' \<Longrightarrow> grows sv sv'"
  by (auto simp: grows_def solver_minimize_def split: if_splits)

lemma grows_add2: "grows sv sv1 \<Longrightarrow> grows (solver_add sv0 f) sv \<Longrightarrow> grows sv0 sv1"
  using grows_trans grows_add by blast

lemma pop_after_push: "grows (solver_push sv) sv' \<Longrightarrow> solver_pop sv' = Inr sv"
  by (cases sv) (auto simp: grows_def solver_push_def solver_pop_def)

lemma grows_add_step: "grows sv sv1 \<Longrightarrow> grows sv (solver_add sv1 f)"
  using grows_add grows_trans by blast

lemma edge_constraints_grows:
  "edge_constraints R_ij f_R_vars e sv = Inr sv' \<Longrightarrow> grows sv sv'"
  unfolding edge_constraints_def
  by (auto simp: Let_def split: prod.splits if_splits elim!: bindE_InrE
           intro!: grows_add_step grows_refl)

lemma edges_loop_grows:
  "edges_loop R_ij f_R_vars es sv = Inr sv' \<Longrightarrow> grows sv sv'"
proof (induction es arbitrary: sv)
  case Nil
  then show ?case by (simp add: grows_refl)
next
  case (Cons e es)
  from Cons.prems obtain sv1 where a: "edge_constraints R_ij f_R_vars e sv = Inr sv1"
    and b: "edges_loop R_ij f_R_vars es sv1 = Inr sv'" by (auto elim!: bindE_InrE)
  from edge_constraints_grows[OF a] Cons.IH[OF b] show ?case by (rule grows_trans)
qed

lemma wardrop_loop_grows:
  "wardrop_loop g T_i f_R_i_vars j routes sv = Inr sv' \<Longrightarrow> grows sv sv'"
proof (induction routes arbitrary: j sv)
  case Nil
  then show ?case by (simp add: grows_refl)
next
  case (Cons r routes)
  from Cons.prems obtain f1 f2 where
    "wardrop_loop g T_i f_R_i_vars (Suc j) routes (solver_add (solver_add sv f1) f2) = Inr sv'"
    by (auto simp: Let_def elim!: bindE_InrE)
  from Cons.IH[OF this] have "grows (solver_add (solver_add sv f1) f2) sv'" .
  with grows_trans[OF grows_add grows_add] show ?case by (rule grows_trans)
qed

lemma demands_loop_grows:
  "demands_loop g R_ij f_R_vars i demands sv = Inr sv' \<Longrightarrow> grows sv sv'"
proof (induction demands arbitrary: i sv)
  case Nil
  then show ?case by (simp add: grows_refl)
next
  case (Cons dm demands)
  show ?case
  proof (cases "\<not> has_node g (dm_s dm) \<or> \<not> has_node g (dm_t dm)")
    case True
    with Cons.prems have "demands_loop g R_ij f_R_vars (Suc i) demands sv = Inr sv'" by auto
    then show ?thesis by (rule Cons.IH)
  next
    case False
    with Cons.prems obtain f vars routes sv1 where
      w: "wardrop_loop g (PExpr (RealVar (''T_'' @ str_nat i))) vars 0 routes (solver_add sv f) = Inr sv1"
      and r: "demands_loop g R_ij f_R_vars (Suc i) demands sv1 = Inr sv'"
      by (auto simp: Let_def elim!: bindE_InrE)
    from grows_trans[OF grows_add wardrop_loop_grows[OF w]] Cons.IH[OF r]
    show ?thesis by (rule grows_trans)
  qed
qed

lemma nonneg_loop_grows: "nonneg_loop fs sv = Inr sv' \<Longrightarrow> grows sv sv'"
proof (induction fs arbitrary: sv)
  case Nil
  then show ?case by (simp add: grows_refl)
next
  case (Cons f fs)
  from Cons.prems obtain c where "nonneg_loop fs (solver_add sv c) = Inr sv'"
    by (auto elim!: bindE_InrE)
  from grows_add Cons.IH[OF this] show ?case by (rule grows_trans)
qed

lemma addConstraints_grows:
  "addConstraints g R_ij f_R_vars demands sv = Inr sv' \<Longrightarrow> grows sv sv'"
  unfolding addConstraints_def addC1C2Constraints_def addC3C4Constraints_def
  by (elim bindE_InrE) (blast intro: grows_trans edges_loop_grows demands_loop_grows nonneg_loop_grows)

lemma optimizeObjective_restores:
  assumes "optimizeObjective check g R_ij f_R_vars demands sv = Inr (res, sv')"
  shows "sv' = sv"
proof -
  from assms obtain sv2 ob sv3 where
    a: "addConstraints g R_ij f_R_vars demands (solver_push sv) = Inr sv2"
    and m: "solver_minimize sv2 ob = Inr sv3"
    and p: "solver_pop sv3 = Inr sv'"
    unfolding optimizeObjective_def Let_def
    by (auto elim!: bindE_InrE split: option.splits)
  from grows_trans[OF addConstraints_grows[OF a] grows_minimize[OF m]]
  have "solver_pop sv3 = Inr sv" by (rule pop_after_push)
  with p show ?thesis by simp
qed

lemma probe_restores:
  assumes "probe check with_obj g R_ij f_R_vars demands p sv = Inr (ans, sv')"
  shows "sv' = sv"
proof -
  from assms obtain sv2 sv3 where
    a: "addConstraints (set_symbolic_prices (of_int p) g) R_ij f_R_vars demands (solver_push sv) = Inr sv2"
    and m: "(if with_obj
             then bindE (in_state sv2 (getObjectiveExpr (set_symbolic_prices (of_int p) g) R_ij f_R_vars))
                    (\<lambda>objective. in_state sv2 (solver_minimize sv2 objective))
             else Inr sv2) = Inr sv3"
    and p: "solver_pop sv3 = Inr sv'"
    unfolding probe_def Let_def
    by (elim bindE_InrE) auto
  from m have "grows sv2 sv3"
    by (auto split: if_splits elim!: bindE_InrE intro: grows_refl grows_minimize)
  with addConstraints_grows[OF a] have "grows (solver_push sv) sv3" by (rule grows_trans)
  then have "solver_pop sv3 = Inr sv" by (rule pop_after_push)
  with p show ?thesis by simp
qed

lemma price_loop_restores:
  "price_loop check with_obj g R_ij f_R_vars demands p model price sv = Inr (found, sv') \<Longrightarrow> sv' = sv"
proof (induction check with_obj g R_ij f_R_vars demands p model price sv rule: price_loop.induct)
  case (1 check with_obj g R_ij f_R_vars demands p model price sv)
  show ?case
  proof (cases "P_MIN \<le> p")
    case False
    with "1.prems" show ?thesis by (simp add: price_loop.simps)
  next
    case True
    with "1.prems" obtain ans sv4 where pr: "probe check with_obj g R_ij f_R_vars demands p sv = Inr (ans, sv4)"
      by (subst (asm) price_loop.simps) (auto split: sum.splits)
    then have sv4: "sv4 = sv" by (rule probe_restores)
    show ?thesis
    proof (cases ans)
      case None
      with True pr "1.prems" sv4 show ?thesis by (subst (asm) price_loop.simps) simp
    next
      case (Some m)
      with True pr "1.prems" have
        "price_loop check with_obj g R_ij f_R_vars demands (p - P_DELTA) (Some m) (Some (of_int p)) sv4
           = Inr (found, sv')"
        by (subst (asm) price_loop.simps) simp
      with "1.IH" True pr Some sv4 show ?thesis by auto
    qed
  qed
qed

lemma setPricesHighToLow_restores:
  assumes "setPricesHighToLow check evaluate with_obj g R_ij f_R_vars demands sv = Inr (res, g', f', sv')"
  shows "sv' = sv"
  using assms unfolding setPricesHighToLow_def
  by (auto elim!: bindE_InrE split: prod.splits option.splits dest: price_loop_restores)

lemma bs_loop_restores:
  "bs_loop check R_ij f_R_vars demands left C_MIN C_MAX result g sv = Inr (res, g', sv') \<Longrightarrow> sv' = sv"
proof (induction left arbitrary: C_MIN C_MAX result g sv)
  case 0
  then show ?case by simp
next
  case (Suc left)
  let ?c = "(C_MIN + C_MAX) div 2"
  let ?g1 = "map_attrs (\<lambda>data. data(''capacity'' \<mapsto> PNum (of_int ?c))) g"
  from Suc.prems obtain r1 sv1 where
    o: "optimizeObjective check ?g1 R_ij f_R_vars demands sv = Inr (r1, sv1)"
    and rest: "(if snd r1
           then bs_loop check R_ij f_R_vars demands left C_MIN ?c r1 ?g1 sv1
           else bs_loop check R_ij f_R_vars demands left ?c C_MAX r1 ?g1 sv1) = Inr (res, g', sv')"
    by (auto simp: Let_def elim!: bindE_InrE)
  from optimizeObjective_restores[OF o] have "sv1 = sv" .
  with rest Suc.IH show ?case by (auto split: if_splits)
qed

lemma inc_loop_restores:
  "inc_loop check R_ij f_R_vars demands left result g sv = Inr (res, g', sv') \<Longrightarrow> sv' = sv"
proof (induction left arbitrary: result g sv)
  case 0
  then show ?case by simp
next
  case (Suc left)
  from Suc.prems obtain g1 r1 sv1 where
    o: "optimizeObjective check g1 R_ij f_R_vars demands sv = Inr (r1, sv1)"
    and rest: "(if snd r1 then Inr (r1, g1, sv1)
            else inc_loop check R_ij f_R_vars demands left r1 g1 sv1) = Inr (res, g', sv')"
    by (auto simp: Let_def elim!: bindE_InrE)
  from optimizeObjective_restores[OF o] have "sv1 = sv" .
  with rest Suc.IH show ?case by (auto split: if_splits)
qed

text \<open>The definitions a run on a concrete input unfolds.\<close>

lemmas eval_defs = bindE_def in_state_def with_state_def keydict_def joins_def getitem_uv_def getitem_uvk_def getattr_def
  nth_py_def binop_def py_add_def py_sub_def py_mul_def py_ge_def py_le_def py_eq_def py_sum_def z3_Sum_def
  compute_route_cost_def compute_route_price_def solver_add_def solver_push_def solver_pop_def
  solver_minimize_def has_node_def edges_view_def nbrs_def uniq_def touches_def other_end_def
  edge_constraints_def addC1C2Constraints_def addC3C4Constraints_def addConstraints_def
  getObjectiveExpr_def Let_def

lemmas example_defs = example_vars_graph_def example_routes_def example_flows_def
  demand_AC_def empty_solver_def never_sat_def red_attrs_def bus_attrs_def
  PRICE_MIN_def TOLERANCE_COST_def TOLERANCE_FLOW_def

section \<open>Facts about the flow estimate of the descending-price strategy\<close>

lemma sum_from_nums: "sum_from (PNum a) (map PNum xs) = Inr (PNum (a + sum_list xs))"
  by (induction xs arbitrary: a) (simp_all add: py_add_def binop_def bindE_def add.assoc)








section \<open>Facts about the constraint builder\<close>

lemma binop_arith: "arith a \<Longrightarrow> arith b \<Longrightarrow> binop f a b = Inr (f a b)"
  by (simp add: binop_def)

lemma arith_cases: "arith v \<Longrightarrow> (\<exists>x. v = PNum x) \<or> (\<exists>e. v = PExpr e)"
  by (cases v) auto

lemma arith_add_val: "arith (add_val a b)"
  by (cases "(a, b)" rule: add_val.cases) auto

lemma arith_sub_val: "arith (sub_val a b)"
  by (cases "(a, b)" rule: sub_val.cases) auto

lemma arith_mul_val: "arith (mul_val a b)"
  by (cases "(a, b)" rule: mul_val.cases) auto

lemma arith_total_val: "arith (total_val ts)"
  by (simp add: total_val_def)

lemma nums_of_arith:
  "list_all arith ts \<Longrightarrow> \<not> list_ex is_expr ts \<Longrightarrow> ts = map PNum (map price_num ts)"
proof (induction ts)
  case Nil
  then show ?case by simp
next
  case (Cons t ts)
  then have "arith t" "\<not> is_expr t" by simp_all
  then obtain x where "t = PNum x" by (cases t) auto
  with Cons show ?case by (simp add: price_num_def)
qed

lemma py_sum_arith:
  assumes "list_all arith ts" "\<not> list_ex is_expr ts"
  shows "py_sum ts = Inr (total_val ts)"
proof -
  define xs where "xs = map price_num ts"
  have ts: "ts = map PNum xs" unfolding xs_def using assms by (rule nums_of_arith)
  have "py_sum (map PNum xs) = Inr (PNum (sum_list xs))" by (simp add: py_sum_def sum_from_nums)
  moreover have "total_val ts = PNum (sum_list xs)" using assms(2) by (simp add: total_val_def xs_def)
  ultimately show ?thesis using ts by simp
qed

lemma z3_Sum_arith: "list_all arith ts \<Longrightarrow> z3_Sum ts = Inr (total_val ts)"
proof (cases "list_ex is_expr ts")
  case True
  assume "list_all arith ts"
  moreover from True have "ts \<noteq> []" by auto
  ultimately show ?thesis using True by (simp add: z3_Sum_def total_val_def)
next
  case False
  assume a: "list_all arith ts"
  show ?thesis
  proof (cases "ts = []")
    case True
    then show ?thesis by (simp add: z3_Sum_def total_val_def)
  next
    case ne: False
    with False have "z3_Sum ts = py_sum ts" by (simp add: z3_Sum_def)
    with py_sum_arith[OF a False] show ?thesis by simp
  qed
qed

lemma floats_arith:
  "list_all arith ts \<Longrightarrow> \<not> list_ex is_expr ts \<Longrightarrow> floats ts = Inr ts"
proof (induction ts)
  case Nil
  then show ?case by simp
next
  case (Cons t ts)
  then have "arith t" "\<not> is_expr t" by simp_all
  then obtain x where "t = PNum x" by (cases t) auto
  with Cons show ?case by (simp add: bindE_def)
qed

lemma edge_lookup:
  assumes "arith (edge_value g name (u, v, key))"
  shows "\<exists>data. getitem_uvk g u v key = Inr data \<and> getattr data name = Inr (edge_value g name (u, v, key))"
proof -
  from assms obtain data where d: "map_of (keydict g u v) key = Some data"
    by (auto simp: edge_value_def split: option.splits)
  then have "keydict g u v \<noteq> []" by auto
  with d have gi: "getitem_uvk g u v key = Inr data"
    by (simp add: getitem_uvk_def getitem_uv_def bindE_def)
  from assms d obtain x where "data name = Some x" by (auto simp: edge_value_def split: option.splits)
  with d have "getattr data name = Inr (edge_value g name (u, v, key))"
    by (simp add: getattr_def edge_value_def)
  with gi show ?thesis by blast
qed

lemma cost_terms_ok:
  "list_all (priced_edge g) route_edges \<Longrightarrow>
   cost_terms g route_edges =
     Inr (map (\<lambda>e. add_val (mul_val (edge_value g ''k'' e) (edge_value g ''f_e'' e))
                            (edge_value g ''price'' e)) route_edges)"
proof (induction route_edges)
  case Nil
  then show ?case by simp
next
  case (Cons e es)
  obtain u v key where e: "e = (u, v, key)" by (cases e) auto
  from Cons.prems e have a: "arith (edge_value g ''f_e'' (u, v, key))"
    "arith (edge_value g ''k'' (u, v, key))" "arith (edge_value g ''price'' (u, v, key))"
    by (simp_all add: priced_edge_def)
  from edge_lookup[OF a(1)] obtain data where d: "getitem_uvk g u v key = Inr data"
    "getattr data ''f_e'' = Inr (edge_value g ''f_e'' (u, v, key))" by blast
  from edge_lookup[OF a(2)] d(1) have k: "getattr data ''k'' = Inr (edge_value g ''k'' (u, v, key))" by auto
  from edge_lookup[OF a(3)] d(1) have p: "getattr data ''price'' = Inr (edge_value g ''price'' (u, v, key))"
    by auto
  from Cons have rest: "cost_terms g es =
     Inr (map (\<lambda>e. add_val (mul_val (edge_value g ''k'' e) (edge_value g ''f_e'' e))
                            (edge_value g ''price'' e)) es)" by simp
  show ?case unfolding e
    by (simp add: d k p rest bindE_Inr py_mul_def py_add_def binop_arith a arith_mul_val)
qed

lemma price_terms_ok:
  "list_all (priced_edge g) route_edges \<Longrightarrow>
   price_terms g route_edges = Inr (map (edge_value g ''price'') route_edges)"
proof (induction route_edges)
  case Nil
  then show ?case by simp
next
  case (Cons e es)
  obtain u v key where e: "e = (u, v, key)" by (cases e) auto
  from Cons.prems e have a: "arith (edge_value g ''price'' (u, v, key))" by (simp add: priced_edge_def)
  from edge_lookup[OF a] obtain data where d: "getitem_uvk g u v key = Inr data"
    "getattr data ''price'' = Inr (edge_value g ''price'' (u, v, key))" by blast
  from Cons have rest: "price_terms g es = Inr (map (edge_value g ''price'') es)" by simp
  show ?case unfolding e by (simp add: d rest bindE_Inr)
qed

lemma compute_route_cost_ok:
  assumes "list_all (priced_edge g) route_edges"
  shows "compute_route_cost g route_edges = Inr (route_cost g route_edges)"
proof -
  let ?ts = "map (\<lambda>e. add_val (mul_val (edge_value g ''k'' e) (edge_value g ''f_e'' e))
                            (edge_value g ''price'' e)) route_edges"
  have ar: "list_all arith ?ts" by (simp add: list_all_iff arith_add_val)
  have "(if list_ex is_expr ?ts then z3_Sum ?ts else py_sum ?ts) = Inr (total_val ?ts)"
    using z3_Sum_arith[OF ar] py_sum_arith[OF ar] by simp
  then show ?thesis
    unfolding compute_route_cost_def cost_terms_ok[OF assms] bindE_Inr route_cost_def .
qed

lemma compute_route_price_ok:
  assumes "list_all (priced_edge g) route_edges"
  shows "compute_route_price g route_edges = Inr (route_price g route_edges)"
proof -
  let ?ts = "map (edge_value g ''price'') route_edges"
  have ar: "list_all arith ?ts" using assms by (simp add: list_all_iff priced_edge_def)
  have "(if list_ex is_expr ?ts then z3_Sum ?ts else bindE (floats ?ts) py_sum) = Inr (total_val ?ts)"
    using z3_Sum_arith[OF ar] py_sum_arith[OF ar] floats_arith[OF ar] by (simp add: bindE_Inr)
  then show ?thesis
    unfolding compute_route_price_def price_terms_ok[OF assms] bindE_Inr route_price_def .
qed

lemma wardrop_step:
  assumes "j < length fs" "arith (fs ! j)" "arith T" "list_all (priced_edge g) r"
  shows "wardrop_loop g T fs j (r # routes) sv
         = wardrop_loop g T fs (Suc j) routes
             (solver_add (solver_add sv (wardrop_used (fs ! j) T (route_cost g r)))
                         (wardrop_unused (fs ! j) T (route_price g r)))"
  by (simp add: compute_route_cost_ok[OF assms(4)] compute_route_price_ok[OF assms(4)] bindE_Inr
        nth_py_def assms(1) py_ge_def py_le_def py_add_def py_sub_def binop_arith assms(2,3)
        arith_add_val arith_sub_val arith_total_val route_cost_def route_price_def Let_def
        wardrop_used_def wardrop_unused_def TOLERANCE_FLOW_def TOLERANCE_COST_def)

lemma wardrop_loop_ok:
  assumes "arith T"
  shows "j + length routes \<le> length fs \<Longrightarrow> list_all arith fs \<Longrightarrow>
    list_all (list_all (priced_edge g)) routes \<Longrightarrow>
    wardrop_loop g T fs j routes sv =
      Inr (sv\<lparr>assertions := assertions sv @ concat (map (wardrop_pair g T) (zip (drop j fs) routes))\<rparr>)"
proof (induction routes arbitrary: j sv)
  case Nil
  then show ?case by simp
next
  case (Cons r routes)
  from Cons.prems have j: "j < length fs" by simp
  from Cons.prems(2) j have fl: "arith (fs ! j)" by (simp add: list_all_length)
  from Cons.prems(3) have pr: "list_all (priced_edge g) r" by simp
  have z: "zip (drop j fs) (r # routes) = (fs ! j, r) # zip (drop (Suc j) fs) routes"
    using j by (simp add: Cons_nth_drop_Suc[symmetric])
  let ?A = "wardrop_used (fs ! j) T (route_cost g r)"
  let ?B = "wardrop_unused (fs ! j) T (route_price g r)"
  have "wardrop_loop g T fs j (r # routes) sv
        = wardrop_loop g T fs (Suc j) routes (solver_add (solver_add sv ?A) ?B)"
    using j fl assms pr by (rule wardrop_step)
  also have "\<dots> = Inr ((solver_add (solver_add sv ?A) ?B)
      \<lparr>assertions := assertions (solver_add (solver_add sv ?A) ?B)
          @ concat (map (wardrop_pair g T) (zip (drop (Suc j) fs) routes))\<rparr>)"
    using Cons.prems by (intro Cons.IH) simp_all
  also have "\<dots> = Inr (sv\<lparr>assertions := assertions sv
          @ concat (map (wardrop_pair g T) (zip (drop j fs) (r # routes)))\<rparr>)"
    by (simp add: z solver_add_def wardrop_pair_def)
  finally show ?case .
qed

lemma demands_loop_ok:
  "list_all (demand_ok g R_ij f_R_vars) (enumerate i demands) \<Longrightarrow>
   demands_loop g R_ij f_R_vars i demands sv =
     Inr (sv\<lparr>assertions := assertions sv
            @ concat (map (demand_block g R_ij f_R_vars) (enumerate i demands))\<rparr>)"
proof (induction demands arbitrary: i sv)
  case Nil
  then show ?case by simp
next
  case (Cons dm demands)
  from Cons.prems have ok: "demand_ok g R_ij f_R_vars (i, dm)"
    and rest: "list_all (demand_ok g R_ij f_R_vars) (enumerate (Suc i) demands)" by simp_all
  show ?case
  proof (cases "\<not> has_node g (dm_s dm) \<or> \<not> has_node g (dm_t dm)")
    case True
    then have "demand_block g R_ij f_R_vars (i, dm) = []" by (simp add: demand_block_def)
    with True Cons.IH[OF rest] show ?thesis by auto
  next
    case False
    with ok have h: "i < length f_R_vars" "i < length R_ij" "list_all arith (f_R_vars ! i)"
      "length (R_ij ! i) \<le> length (f_R_vars ! i)" "list_all (list_all (priced_edge g)) (R_ij ! i)"
      by (auto simp: demand_ok_def)
    let ?T = "PExpr (RealVar (''T_'' @ str_nat i))"
    let ?c = "eq_val (total_val (f_R_vars ! i)) (PNum (dm_d dm))"
    have w: "wardrop_loop g ?T (f_R_vars ! i) 0 (R_ij ! i) (solver_add sv ?c)
        = Inr ((solver_add sv ?c)\<lparr>assertions := assertions (solver_add sv ?c)
              @ concat (map (wardrop_pair g ?T) (zip (drop 0 (f_R_vars ! i)) (R_ij ! i)))\<rparr>)"
      using h by (intro wardrop_loop_ok) simp_all
    have blk: "assertions (solver_add sv ?c)
              @ concat (map (wardrop_pair g ?T) (zip (drop 0 (f_R_vars ! i)) (R_ij ! i)))
          = assertions sv @ demand_block g R_ij f_R_vars (i, dm)"
      using False by (simp add: demand_block_def solver_add_def)
    note w' = w[unfolded blk]
    have "demands_loop g R_ij f_R_vars i (dm # demands) sv
        = bindE (wardrop_loop g ?T (f_R_vars ! i) 0 (R_ij ! i) (solver_add sv ?c))
            (demands_loop g R_ij f_R_vars (Suc i) demands)"
      using False h(1,2)
      by (simp add: nth_py_def bindE_Inr z3_Sum_arith[OF h(3)] py_eq_def arith_total_val Let_def)
    also have "\<dots> = demands_loop g R_ij f_R_vars (Suc i) demands
            ((solver_add sv ?c)\<lparr>assertions := assertions sv @ demand_block g R_ij f_R_vars (i, dm)\<rparr>)"
      by (simp only: w' bindE_Inr)
    also have "\<dots> = Inr (sv\<lparr>assertions := assertions sv
            @ concat (map (demand_block g R_ij f_R_vars) (enumerate i (dm # demands)))\<rparr>)"
      by (simp add: Cons.IH[OF rest] solver_add_def)
    finally show ?thesis .
  qed
qed

lemma str_nat_0: "str_nat 0 = ''0''"
  by (simp add: str_nat.simps[of 0] digit_char_def)

section \<open>Facts about the round trip through the file\<close>

lemma keydict_is_keydict_of: "keydict g u v = keydict_of (edges g) u v"
  by (simp add: keydict_def keydict_of_def)

lemma keydict_of_append: "keydict_of (xs @ ys) u v = keydict_of xs u v @ keydict_of ys u v"
  by (simp add: keydict_of_def)

lemma keydict_of_Nil: "keydict_of [] u v = []"
  by (simp add: keydict_of_def)

lemma joins_sym: "joins u v e = joins v u e"
  by (auto simp: joins_def split: prod.splits)

lemma keydict_sym: "keydict g u v = keydict g v u"
proof -
  have "joins u v = joins v u" by (rule ext) (rule joins_sym)
  then show ?thesis by (simp add: keydict_def)
qed

lemma keydict_of_concat:
  "keydict_of (concat xss) u v = concat (map (\<lambda>xs. keydict_of xs u v) xss)"
  by (induction xss) (simp_all add: keydict_of_Nil keydict_of_append)

lemma keydict_of_oriented:
  "keydict_of (map (\<lambda>(k, a). (n, w, k, a)) kd) u v
     = (if (n = u \<and> w = v) \<or> (n = v \<and> w = u) then kd else [])"
proof -
  have j: "(joins u v \<circ> (\<lambda>(k, a). (n, w, k, a))) = (\<lambda>ka. (n = u \<and> w = v) \<or> (n = v \<and> w = u))"
    by (rule ext) (auto simp: joins_def split: prod.splits)
  have m: "map ((\<lambda>(x, y, k, a). (k, a)) \<circ> (\<lambda>(k, a). (n, w, k, a))) xs = xs" for xs :: "(ekey \<times> attrs) list"
    by (induction xs) auto
  show ?thesis
    unfolding keydict_of_def filter_map map_map j using m by simp
qed

lemma concat_single:
  "distinct ws \<Longrightarrow> (\<forall>w \<in> set ws. w \<noteq> w0 \<longrightarrow> h w = []) \<Longrightarrow>
   concat (map h ws) = (if w0 \<in> set ws then h w0 else [])"
  by (induction ws) auto

lemma distinct_nbrs: "distinct (nbrs g n)"
  by (simp add: nbrs_def uniq_def)

lemma not_nbr_no_edges: "w \<notin> set (nbrs g n) \<Longrightarrow> keydict g n w = []"
  using set_nbrs by blast

text \<open>What the part of the edge view reported at node n holds between u and v.\<close>

lemma keydict_of_at_node:
  "keydict_of (concat (map (\<lambda>w. if w \<in> set seen then []
                       else map (\<lambda>(k, a). (n, w, k, a)) (keydict g n w)) (nbrs g n))) u v
   = (if n = u \<and> v \<notin> set seen then keydict g u v
      else if n = v \<and> u \<notin> set seen then keydict g u v else [])"
proof -
  let ?h = "\<lambda>w. keydict_of (if w \<in> set seen then []
                       else map (\<lambda>(k, a). (n, w, k, a)) (keydict g n w)) u v"
  have step: "keydict_of (concat (map (\<lambda>w. if w \<in> set seen then []
                       else map (\<lambda>(k, a). (n, w, k, a)) (keydict g n w)) (nbrs g n))) u v
        = concat (map ?h (nbrs g n))"
    by (simp add: keydict_of_concat comp_def)
  show ?thesis
  proof (cases "n = u")
    case True
    have "concat (map ?h (nbrs g n)) = (if v \<in> set (nbrs g n) then ?h v else [])"
      using True by (intro concat_single distinct_nbrs) (auto simp: keydict_of_oriented keydict_of_Nil)
    also have "\<dots> = (if v \<notin> set seen then keydict g u v else [])"
      using True not_nbr_no_edges[of v g n] by (auto simp: keydict_of_oriented keydict_of_Nil)
    finally show ?thesis using True step by auto
  next
    case False
    show ?thesis
    proof (cases "n = v")
      case True
      have "concat (map ?h (nbrs g n)) = (if u \<in> set (nbrs g n) then ?h u else [])"
        using True False by (intro concat_single distinct_nbrs) (auto simp: keydict_of_oriented keydict_of_Nil)
      also have "\<dots> = (if u \<notin> set seen then keydict g u v else [])"
        using True False not_nbr_no_edges[of u g n] keydict_sym[of g v u]
        by (auto simp: keydict_of_oriented keydict_of_Nil)
      finally show ?thesis using True False step by auto
    next
      case nv: False
      have "concat (map ?h (nbrs g n)) = []" using False nv
        by (simp add: keydict_of_oriented keydict_of_Nil)
      then show ?thesis using False nv step by simp
    qed
  qed
qed

lemma keydict_of_edges_from:
  "distinct ns \<Longrightarrow> set ns \<inter> set seen = {} \<Longrightarrow>
   keydict_of (edges_from g seen ns) u v
     = (if u \<notin> set seen \<and> v \<notin> set seen \<and> (u \<in> set ns \<or> v \<in> set ns) then keydict g u v else [])"
proof (induction ns arbitrary: seen)
  case Nil
  then show ?case by (simp add: keydict_of_Nil)
next
  case (Cons n ns)
  have d: "distinct ns" and i: "set ns \<inter> set (n # seen) = {}" and ns: "n \<notin> set seen" "n \<notin> set ns"
    using Cons.prems by auto
  note IH = Cons.IH[OF d i]
  show ?case
    unfolding edges_from.simps keydict_of_append keydict_of_at_node IH
    using ns by auto
qed

lemma keydict_of_edges_view:
  assumes "well_formed g"
  shows "keydict_of (edges_view g) u v = keydict g u v"
proof -
  have "keydict_of (edges_view g) u v = (if u \<in> set (nodes g) \<or> v \<in> set (nodes g) then keydict g u v else [])"
    unfolding edges_view_def using assms by (subst keydict_of_edges_from) (auto simp: well_formed_def)
  moreover have "keydict g u v = []" if "u \<notin> set (nodes g)"
  proof (rule ccontr)
    assume "keydict g u v \<noteq> []"
    then obtain e where "e \<in> set (edges g)" "joins u v e" by (auto simp: keydict_nonempty_iff)
    with assms that show False by (auto simp: well_formed_def joins_def split: prod.splits)
  qed
  ultimately show ?thesis by auto
qed

lemma new_edge_key_counted:
  assumes "map fst (keydict g u v) = map IntKey [0..<length (keydict g u v)]"
  shows "new_edge_key g u v = IntKey (length (keydict g u v))"
    and "new_edge_key g u v \<notin> fst ` set (keydict g u v)"
proof -
  let ?m = "length (keydict g u v)"
  have keys: "set (map fst (keydict g u v)) = IntKey ` {0..<?m}" by (subst assms) simp
  then have fresh: "IntKey ?m \<notin> set (map fst (keydict g u v))" by auto
  then show k: "new_edge_key g u v = IntKey ?m" by (simp add: new_edge_key_def Let_def)
  from fresh show "new_edge_key g u v \<notin> fst ` set (keydict g u v)" unfolding k by simp
qed

lemma keydict_of_snoc:
  "keydict_of (xs @ [(x, y, k, a)]) u v
     = keydict_of xs u v @ (if joins u v (x, y, k, a) then [(k, a)] else [])"
  by (simp add: keydict_of_def)

lemma counted_keys_snoc:
  assumes "counted_keys (xs @ [(x, y, k, a)])"
  shows "counted_keys xs" and "k = IntKey (length (keydict_of xs x y))"
proof -
  have j: "joins x y (x, y, k, a)" by (simp add: joins_def)
  have c1: "map fst (keydict_of xs u v) = map IntKey [0..<length (keydict_of xs u v)]
            \<and> k = IntKey (length (keydict_of xs u v))"
    if "joins u v (x, y, k, a)" for u v
  proof -
    from assms[unfolded counted_keys_def, rule_format, of u v] that
    have "map fst (keydict_of xs u v) @ [k]
          = map IntKey [0..<length (keydict_of xs u v)] @ [IntKey (length (keydict_of xs u v))]"
      by (simp add: keydict_of_snoc)
    then show ?thesis by simp
  qed
  have c2: "map fst (keydict_of xs u v) = map IntKey [0..<length (keydict_of xs u v)]"
    if "\<not> joins u v (x, y, k, a)" for u v
    using assms[unfolded counted_keys_def, rule_format, of u v] that by (simp add: keydict_of_snoc)
  show "counted_keys xs"
    unfolding counted_keys_def using c1 c2 by blast
  from c1[OF j] show "k = IntKey (length (keydict_of xs x y))" by simp
qed

lemma ends_keydict_of: "ends es = {x. \<exists>y. keydict_of es x y \<noteq> []}"
proof (intro equalityI subsetI)
  fix x assume "x \<in> ends es"
  then obtain a b k d where e: "(a, b, k, d) \<in> set es" "x = a \<or> x = b" by (auto simp: ends_def)
  then have "joins x (if x = a then b else a) (a, b, k, d)" by (auto simp: joins_def)
  with e(1) have "keydict_of es x (if x = a then b else a) \<noteq> []"
    by (auto simp: keydict_of_def filter_empty_conv)
  then show "x \<in> {x. \<exists>y. keydict_of es x y \<noteq> []}" by blast
next
  fix x assume "x \<in> {x. \<exists>y. keydict_of es x y \<noteq> []}"
  then obtain y e where e: "e \<in> set es" "joins x y e" by (auto simp: keydict_of_def filter_empty_conv)
  obtain a b k d where abkd: "e = (a, b, k, d)" by (cases e) auto
  with e(2) have "x \<in> {a, b}" by (auto simp: joins_def)
  with e(1) abkd show "x \<in> ends es" unfolding ends_def by force
qed

lemma add_nodes_set: "set (add_nodes ns u v) = set ns \<union> {u, v}"
  by (auto simp: add_nodes_def Let_def)

lemma add_nodes_distinct: "distinct ns \<Longrightarrow> distinct (add_nodes ns u v)"
  by (auto simp: add_nodes_def Let_def)

lemma parsed_well_formed: "parsed g \<Longrightarrow> well_formed g"
  by (auto simp: parsed_def well_formed_def ends_def)

lemma ends_by_shape: "ends es = (\<Union>(x, y, k) \<in> set (shape es). {x, y})"
proof -
  have f: "(\<lambda>(x, y, k). {x, y}) \<circ> (\<lambda>(u, v, k, a). (u, v, k)) = (\<lambda>(x, y, k, a). {x, y})"
    by (rule ext) (simp add: case_prod_unfold)
  show ?thesis unfolding ends_def shape_def set_map image_comp f ..
qed

lemma ends_shape: "shape es' = shape es \<Longrightarrow> ends es' = ends es"
  by (simp add: ends_by_shape)

lemma default_k_shape: "default_k table es = Inr es' \<Longrightarrow> shape es' = shape es"
proof (induction es arbitrary: es')
  case Nil
  then show ?case by simp
next
  case (Cons e es)
  obtain u v k a where e: "e = (u, v, k, a)" by (cases e) auto
  from Cons.prems e obtain d more where "default_k table es = Inr more" "es' = (u, v, k, d) # more"
    by (auto elim!: bindE_InrE)
  with Cons.IH e show ?case by (simp add: shape_def)
qed

lemma default_k_truthy:
  "\<forall>(x, y, k, a) \<in> set es. \<not> falsy (a ''k'') \<Longrightarrow> default_k table es = Inr es"
proof (induction es)
  case Nil
  then show ?case by simp
next
  case (Cons e es)
  obtain u v k a where e: "e = (u, v, k, a)" by (cases e) auto
  from Cons.prems e have "\<not> falsy (a ''k'')" by simp
  moreover from Cons have "default_k table es = Inr es" by simp
  ultimately show ?case unfolding e by (simp add: bindE_Inr)
qed

lemma keydict_of_clean:
  "keydict_of (map (\<lambda>(u, v, k, a). (u, v, k, f a)) es) u v
     = map (\<lambda>(k, a). (k, f a)) (keydict_of es u v)"
proof -
  have f1: "joins u v \<circ> (\<lambda>(u, v, k, a). (u, v, k, f a)) = joins u v"
    by (rule ext) (simp add: joins_def case_prod_unfold)
  have f2: "(\<lambda>(x, y, k, a). (k, a)) \<circ> (\<lambda>(u, v, k, a). (u, v, k, f a))
            = (\<lambda>(k, a). (k, f a)) \<circ> (\<lambda>(x, y, k, a). (k, a))"
    by (rule ext) (simp add: case_prod_unfold)
  show ?thesis unfolding keydict_of_def filter_map map_map f1 f2 ..
qed

lemma shape_clean: "shape (map (\<lambda>(u, v, k, a). (u, v, k, f a)) es) = shape es"
  unfolding shape_def map_map by (rule map_cong) (auto simp: case_prod_unfold)

lemma edge_view_attrs:
  assumes "well_formed g" "(x, y, k, a) \<in> set (edges_view g)"
  shows "\<exists>x' y'. (x', y', k, a) \<in> set (edges g)"
proof -
  have "joins x y (x, y, k, a)" by (simp add: joins_def)
  with assms(2) have "(k, a) \<in> set (keydict_of (edges_view g) x y)"
    by (force simp: keydict_of_def)
  then have "(k, a) \<in> set (keydict g x y)" by (simp add: keydict_of_edges_view[OF assms(1)])
  then obtain e where e: "e \<in> set (edges g)" "(k, a) = (\<lambda>(x, y, k, a). (k, a)) e"
    unfolding keydict_def by auto
  obtain x' y' k' a' where "e = (x', y', k', a')" by (cases e) auto
  with e show ?thesis by auto
qed

text \<open>Parsing lines that were written from counted keys gives the keys back.\<close>

lemma add_line_plain:
  "no_params a \<Longrightarrow> add_line g (u, v, a) = Inr (add_edge g u v (new_edge_key g u v) a)"
  by (simp add: add_line_def no_params_def fun_upd_idem)

lemma parse_lines_snoc:
  "parse_lines g (xs @ [x]) = bindE (parse_lines g xs) (\<lambda>g1. add_line g1 x)"
  by (induction xs arbitrary: g) (auto simp: bindE_def split: sum.splits)

lemma parse_edgelist_counted:
  "counted_keys es \<Longrightarrow> list_all (\<lambda>(x, y, k, a). no_params a) es \<Longrightarrow>
   \<exists>g'. parse_edgelist (map (\<lambda>(u, v, k, a). (u, v, a)) es) = Inr g' \<and> edges g' = es
        \<and> set (nodes g') = ends es"
proof (induction es rule: rev_induct)
  case Nil
  then show ?case by (simp add: parse_edgelist_def empty_graph_def ends_def)
next
  case (snoc e es)
  obtain x y k a where e: "e = (x, y, k, a)" by (cases e) auto
  from snoc.prems e have c: "counted_keys es" and k: "k = IntKey (length (keydict_of es x y))"
    using counted_keys_snoc by blast+
  from snoc.prems(2) e have np: "list_all (\<lambda>(x, y, k, a). no_params a) es" "no_params a" by simp_all
  from snoc.IH[OF c np(1)] obtain g1 where
    g1: "parse_edgelist (map (\<lambda>(u, v, k, a). (u, v, a)) es) = Inr g1" and ed: "edges g1 = es"
    and nd: "set (nodes g1) = ends es" by blast
  have kd: "keydict g1 x y = keydict_of es x y" by (simp add: keydict_is_keydict_of ed)
  have ck: "map fst (keydict g1 x y) = map IntKey [0..<length (keydict g1 x y)]"
    using c unfolding kd counted_keys_def by blast
  note nk = new_edge_key_counted[OF ck]
  let ?g2 = "add_edge g1 x y (new_edge_key g1 x y) a"
  have run: "parse_edgelist (map (\<lambda>(u, v, k, a). (u, v, a)) (es @ [e])) = Inr ?g2"
    using g1 by (simp add: parse_edgelist_def e parse_lines_snoc bindE_Inr add_line_plain[OF np(2)])
  have ed2: "edges ?g2 = es @ [e]"
    using nk ed kd k e by (simp add: add_edge_def)
  have nd2: "set (nodes ?g2) = ends (es @ [e])"
    using nd e by (auto simp: add_edge_def add_nodes_set ends_def)
  from run ed2 nd2 show ?case by blast
qed

lemma ends_update:
  "ends (map (\<lambda>(x, y, k, a). if P (x, y, k, a) then (x, y, k, f a) else (x, y, k, a)) es) = ends es"
  by (rule ends_shape) (simp add: shape_def case_prod_unfold comp_def)

lemma key_in_keydict_ends:
  assumes "key \<in> fst ` set (keydict g u v)"
  shows "u \<in> ends (edges g)" and "v \<in> ends (edges g)"
proof -
  from assms have ne: "keydict_of (edges g) u v \<noteq> []" by (auto simp: keydict_is_keydict_of)
  then show "u \<in> ends (edges g)" unfolding ends_keydict_of by blast
  from ne have "keydict_of (edges g) v u \<noteq> []"
    using keydict_sym[of g u v] by (simp add: keydict_is_keydict_of)
  then show "v \<in> ends (edges g)" unfolding ends_keydict_of by blast
qed

lemma no_params_merge: "no_params a \<Longrightarrow> no_params b \<Longrightarrow> no_params (a ++ b)"
  by (simp add: no_params_def map_add_def)

lemma tidy_add_edge:
  assumes "tidy g" "no_params attr"
  shows "tidy (add_edge g u v key attr)"
proof (cases "key \<in> fst ` set (keydict g u v)")
  case True
  let ?es = "map (\<lambda>(x, y, k, a). if joins u v (x, y, k, a) \<and> k = key
                                   then (x, y, k, a ++ attr) else (x, y, k, a)) (edges g)"
  have ed: "edges (add_edge g u v key attr) = ?es" using True by (simp add: add_edge_def)
  have en: "ends ?es = ends (edges g)"
    using ends_update[of "\<lambda>(x, y, k, a). joins u v (x, y, k, a) \<and> k = key" "\<lambda>a. a ++ attr" "edges g"]
    by (simp add: case_prod_unfold)
  from key_in_keydict_ends[OF True] assms(1) have uv: "u \<in> set (nodes g)" "v \<in> set (nodes g)"
    by (simp_all add: tidy_def)
  then have nd: "nodes (add_edge g u v key attr) = nodes g"
    by (simp add: add_edge_def add_nodes_def)
  have np: "list_all (\<lambda>(x, y, k, a). no_params a) ?es"
    using assms by (auto simp: tidy_def list_all_iff no_params_merge split: if_splits)
  show ?thesis unfolding tidy_def ed nd en using assms(1) np by (simp add: tidy_def)
next
  case False
  have ed: "edges (add_edge g u v key attr) = edges g @ [(u, v, key, attr)]"
    using False by (simp add: add_edge_def)
  have nd: "nodes (add_edge g u v key attr) = add_nodes (nodes g) u v" by (simp add: add_edge_def)
  have e: "ends (edges g @ [(u, v, key, attr)]) = ends (edges g) \<union> {u, v}" by (auto simp: ends_def)
  show ?thesis unfolding tidy_def ed nd e
    using assms by (auto simp: tidy_def add_nodes_set add_nodes_distinct)
qed

lemma tidy_add_line:
  assumes "tidy g" "add_line g l = Inr g'"
  shows "tidy g'"
proof -
  obtain u v a where l: "l = (u, v, a)" by (cases l) auto
  from assms(2) l have np: "no_params (a(''key'' := None))"
    by (auto simp: add_line_def no_params_def split: if_splits)
  from assms(2) l obtain key where "g' = add_edge g u v key (a(''key'' := None))"
    by (auto simp: add_line_def Let_def split: if_splits)
  with tidy_add_edge[OF assms(1) np] show ?thesis by simp
qed

lemma tidy_parse_lines: "tidy g \<Longrightarrow> parse_lines g ls = Inr g' \<Longrightarrow> tidy g'"
proof (induction ls arbitrary: g)
  case Nil
  then show ?case by simp
next
  case (Cons l ls)
  from Cons.prems(2) obtain g1 where a: "add_line g l = Inr g1" and r: "parse_lines g1 ls = Inr g'"
    by (auto elim!: bindE_InrE)
  from tidy_add_line[OF Cons.prems(1) a] r show ?case by (rule Cons.IH)
qed

lemma default_k_no_params:
  "default_k table es = Inr es' \<Longrightarrow> list_all (\<lambda>(x, y, k, a). no_params a) es
   \<Longrightarrow> list_all (\<lambda>(x, y, k, a). no_params a) es'"
proof (induction es arbitrary: es')
  case Nil
  then show ?case by simp
next
  case (Cons e es)
  obtain u v k a where e: "e = (u, v, k, a)" by (cases e) auto
  from Cons.prems(1) e obtain d more where d: "(if falsy (a ''k'')
            then bindE (k_of_color table a) (\<lambda>k. Inr (a(''k'' \<mapsto> k)))
            else Inr a) = Inr d" and m: "default_k table es = Inr more" and es': "es' = (u, v, k, d) # more"
    by (auto elim!: bindE_InrE)
  from Cons.prems(2) e have "no_params a" by simp
  with d have "no_params d" by (auto simp: no_params_def split: if_splits elim!: bindE_InrE)
  moreover from Cons.IH[OF m] Cons.prems(2) have "list_all (\<lambda>(x, y, k, a). no_params a) more" by simp
  ultimately show ?case using es' by simp
qed

lemma parseGraph_tidy: "parseGraph f = Inr g \<Longrightarrow> tidy g"
proof -
  assume "parseGraph f = Inr g"
  then obtain ls g1 es where p: "parse_edgelist ls = Inr g1" and g: "g = g1\<lparr>edges := es\<rparr>"
    and d: "default_k (file_k f) (edges g1) = Inr es"
    unfolding parseGraph_def by (auto split: option.splits elim!: bindE_InrE)
  have "tidy empty_graph" by (simp add: tidy_def empty_graph_def ends_def)
  from this p[unfolded parse_edgelist_def] have t: "tidy g1" by (rule tidy_parse_lines)
  from default_k_shape[OF d] have "ends es = ends (edges g1)" by (rule ends_shape)
  moreover from default_k_no_params[OF d] t have "list_all (\<lambda>(x, y, k, a). no_params a) es"
    by (simp add: tidy_def)
  ultimately show ?thesis using t unfolding g by (simp add: tidy_def)
qed

lemma no_params_clean: "no_params a \<Longrightarrow> no_params (clean_attributes a)"
  by (simp add: no_params_def clean_attributes_def)

lemma round_trip_parsed:
  assumes p: "parsed g" and np: "list_all (\<lambda>(x, y, k, a). no_params a) (edges g)"
    and k: "\<forall>(x, y, k, a) \<in> set (edges g). \<not> falsy (clean_attributes a ''k'')"
  shows "\<exists>g'. parseGraph (writeGraphToJSON g) = Inr g'
           \<and> set (nodes g') = set (nodes g)
           \<and> (\<forall>u v. keydict g' u v = map (\<lambda>(k, a). (k, clean_attributes a)) (keydict g u v))"
proof -
  have wf: "well_formed g" using p by (rule parsed_well_formed)
  let ?L = "map (\<lambda>(u, v, k, a). (u, v, k, clean_attributes a)) (edges_view g)"
  let ?lines = "map (\<lambda>(u, v, key, data). (u, v, clean_attributes data)) (edges_view g)"
  have lines: "?lines = map (\<lambda>(u, v, k, a). (u, v, a)) ?L"
    by (simp add: comp_def case_prod_unfold)
  have kdL: "keydict_of ?L u v = map (\<lambda>(k, a). (k, clean_attributes a)) (keydict g u v)" for u v
    by (simp add: keydict_of_clean keydict_of_edges_view[OF wf])
  have cg: "map fst (keydict g u v) = map IntKey [0..<length (keydict g u v)]" for u v
    using p unfolding parsed_def counted_keys_def keydict_is_keydict_of by blast
  have fstmap: "map fst (map (\<lambda>(k, a). (k, clean_attributes a)) xs) = map fst xs"
    for xs :: "(ekey \<times> attrs) list" by (induction xs) auto
  have cL: "counted_keys ?L"
    unfolding counted_keys_def kdL fstmap length_map using cg by blast
  have from_g: "\<exists>x' y'. (x', y', kk, a0) \<in> set (edges g)" if "(x, y, kk, a0) \<in> set (edges_view g)"
    for x y kk a0 using edge_view_attrs[OF wf that] .
  have npL: "list_all (\<lambda>(x, y, k, a). no_params a) ?L"
  proof -
    have "no_params (clean_attributes a0)" if "(x, y, kk, a0) \<in> set (edges_view g)" for x y kk a0
    proof -
      from from_g[OF that] obtain x' y' where "(x', y', kk, a0) \<in> set (edges g)" by blast
      with np have "no_params a0" by (auto simp: list_all_iff)
      then show ?thesis by (rule no_params_clean)
    qed
    then show ?thesis by (auto simp: list_all_iff)
  qed
  from parse_edgelist_counted[OF cL npL] obtain g1 where
    g1: "parse_edgelist ?lines = Inr g1" and e1: "edges g1 = ?L" and n1: "set (nodes g1) = ends ?L"
    unfolding lines by blast
  have tr: "\<forall>(x, y, k, a) \<in> set ?L. \<not> falsy (a ''k'')"
  proof (clarify)
    fix x y kk a assume "(x, y, kk, a) \<in> set ?L" and f: "falsy (a ''k'')"
    then obtain a0 where a0: "(x, y, kk, a0) \<in> set (edges_view g)" "a = clean_attributes a0" by auto
    from from_g[OF a0(1)] obtain x' y' where "(x', y', kk, a0) \<in> set (edges g)" by blast
    with k a0(2) f show False by auto
  qed
  have dk: "default_k None (edges g1) = Inr (edges g1)" unfolding e1 using tr by (rule default_k_truthy)
  have run: "parseGraph (writeGraphToJSON g) = Inr g1"
    by (simp add: parseGraph_def writeGraphToJSON_def bindE_def g1 dk)
  have kd: "keydict g1 u v = map (\<lambda>(k, a). (k, clean_attributes a)) (keydict g u v)" for u v
    by (simp add: keydict_is_keydict_of[of g1] e1 kdL)
  have "set (nodes g1) = ends ?L" by (rule n1)
  also have "\<dots> = ends (edges_view g)" by (rule ends_shape) (rule shape_clean)
  also have "\<dots> = ends (edges g)"
    unfolding ends_keydict_of keydict_of_edges_view[OF wf] keydict_is_keydict_of ..
  also have "\<dots> = set (nodes g)" using p by (simp add: parsed_def)
  finally have nd: "set (nodes g1) = set (nodes g)" .
  from run nd kd show ?thesis by blast
qed

lemmas parse_defs = parseGraph_def parse_edgelist_def add_line_def key_of_def add_edge_def add_nodes_def
  new_edge_key_def empty_graph_def k_of_color_def writeGraphToJSON_def clean_attributes_def


section \<open>The claims\<close>

text \<open>
  Claim C2, as the specification states it: a demand whose source or target is not a node
  of the graph gets no synthetic personal edge and no routes.

  The code does the opposite, as its comment says (\<open>if source or destination not in graph
  add edge\<close>): the membership test empties the list of node paths, and the empty list
  takes the branch that adds the personal edge. On the example network the demand from
  \<open>X\<close> to \<open>Y\<close> adds the nodes \<open>X\<close> and \<open>Y\<close>, the edge \<open>(X, Y, auto_X_Y)\<close>, and emits one
  route.
\<close>

theorem C2_counterexample:
  "\<not> has_node example_graph ''X'' \<and>
   getAllPossibleRoutes (\<lambda>ps. ps) True 4 example_graph [demand_XY] =
     Inr (\<lparr> nodes = [''A'', ''C'', ''X'', ''Y''],
            edges = [(''A'', ''C'', IntKey 0, red_attrs), (''A'', ''C'', IntKey 1, bus_attrs),
                     (''X'', ''Y'', StrKey ''auto_X_Y'', default_attr)] \<rparr>,
          [[[(''X'', ''Y'', StrKey ''auto_X_Y'')]]])"
  by (simp add: example_graph_def demand_XY_def has_node_def route_step_def Let_def
      add_edge_def add_nodes_def keydict_def joins_def default_key_def bindE_def)

text \<open>
  Claim C2, amended: for every demand whose source \<open>s\<close> or target \<open>t\<close> is not a node of the
  graph when the enumerator reaches the demand, the enumerator returns normally, adds the
  synthetic personal edge \<open>(s, t, auto_s_t)\<close> with \<open>k = 1\<close>, capacity 500, price 100 and
  colour \<open>personal\<close> to the graph, and emits exactly one route for the demand, the
  single-edge route over that edge.
\<close>

theorem C2_absent_endpoint_gets_synthetic_edge:
  assumes "valid_set_order set_order" and "i < length demands"
    and "gi = graph_at set_order trivial max_hops g demands i"
    and "s = dm_s (demands ! i)" and "t = dm_t (demands ! i)"
    and "\<not> has_node gi s \<or> \<not> has_node gi t"
  shows "\<exists>g' R_ij a.
           getAllPossibleRoutes set_order trivial max_hops g demands = Inr (g', R_ij)
         \<and> R_ij ! i = [[(s, t, default_key s t)]]
         \<and> graph_at set_order trivial max_hops g demands (Suc i)
             = add_edge gi s t (default_key s t) default_attr
         \<and> (default_key s t, a)
             \<in> set (keydict (graph_at set_order trivial max_hops g demands (Suc i)) s t)
         \<and> a ''k'' = Some (PNum 1) \<and> a ''capacity'' = Some (PNum 500)
         \<and> a ''price'' = Some (PNum 100) \<and> a ''color'' = Some (PStr ''personal'')"
proof -
  from getAllPossibleRoutes_total[OF assms(1)] obtain g' R_ij where
    run: "getAllPossibleRoutes set_order trivial max_hops g demands = Inr (g', R_ij)" by blast
  have "\<not> has_node gi (dm_s (demands ! i)) \<or> \<not> has_node gi (dm_t (demands ! i))
          \<or> all_simple_paths trivial gi (dm_s (demands ! i)) (dm_t (demands ! i)) max_hops = []"
    using assms(4,5,6) by blast
  from route_step_synthetic[OF this]
  have syn: "route_step set_order trivial max_hops gi (demands ! i) =
           Inr (add_edge gi s t (default_key s t) default_attr, synthetic_route (demands ! i))"
    using assms(4,5) by simp
  from getAllPossibleRoutes_nth[OF run assms(2)] syn assms(3)
  have eq: "graph_at set_order trivial max_hops g demands (Suc i) = add_edge gi s t (default_key s t) default_attr"
    "R_ij ! i = synthetic_route (demands ! i)" by simp_all
  from add_edge_has_edge[of "default_key s t" gi s t default_attr] obtain a where
    a: "(default_key s t, a) \<in> set (keydict (add_edge gi s t (default_key s t) default_attr) s t)"
       "\<forall>n x. default_attr n = Some x \<longrightarrow> a n = Some x" by blast
  have "a ''k'' = Some (PNum 1)" "a ''capacity'' = Some (PNum 500)"
       "a ''price'' = Some (PNum 100)" "a ''color'' = Some (PStr ''personal'')"
    using a(2) by (simp_all add: default_attr_def PERSONAL_CAP_def PERSONAL_PRICE_def)
  with run eq a(1) assms(4,5) show ?thesis
    by (intro exI[of _ g'] exI[of _ R_ij] exI[of _ a]) (simp add: synthetic_route_def)
qed

theorem C2_absent_endpoint_witness:
  "valid_set_order (\<lambda>ps. ps) \<and> (0::nat) < length [demand_XY] \<and> \<not> has_node example_graph ''X'' \<and>
   (\<exists>g' R_ij a.
       getAllPossibleRoutes (\<lambda>ps. ps) True 4 example_graph [demand_XY] = Inr (g', R_ij)
     \<and> R_ij ! 0 = [[(''X'', ''Y'', default_key ''X'' ''Y'')]]
     \<and> graph_at (\<lambda>ps. ps) True 4 example_graph [demand_XY] (Suc 0)
         = add_edge example_graph ''X'' ''Y'' (default_key ''X'' ''Y'') default_attr
     \<and> (default_key ''X'' ''Y'', a)
         \<in> set (keydict (graph_at (\<lambda>ps. ps) True 4 example_graph [demand_XY] (Suc 0)) ''X'' ''Y'')
     \<and> a ''k'' = Some (PNum 1) \<and> a ''capacity'' = Some (PNum 500)
     \<and> a ''price'' = Some (PNum 100) \<and> a ''color'' = Some (PStr ''personal''))"
proof -
  have v: "valid_set_order (\<lambda>ps. ps)" by (simp add: valid_set_order_def)
  have l: "(0::nat) < length [demand_XY]" by simp
  have n: "\<not> has_node example_graph ''X''" by (simp add: has_node_def example_graph_def)
  have g: "example_graph = graph_at (\<lambda>ps. ps) True 4 example_graph [demand_XY] 0" by simp
  have s: "''X'' = dm_s ([demand_XY] ! 0)" and t: "''Y'' = dm_t ([demand_XY] ! 0)"
    by (simp_all add: demand_XY_def)
  from n have d: "\<not> has_node example_graph ''X'' \<or> \<not> has_node example_graph ''Y''" by simp
  from C2_absent_endpoint_gets_synthetic_edge[OF v l g s t d] v l n show ?thesis by blast
qed

text \<open>
  Claim C9: for every graph and demand list the enumerator returns one route list per
  demand, every route list is non-empty and has at most 6 routes, and a demand whose
  endpoints are absent from the graph (as the loop finds it at that demand), or that has
  no simple path within \<open>max_hops\<close> edges, gets exactly the one single-edge synthetic
  route. The set order is any listing of the distinct shortest paths.
\<close>

theorem C9_one_nonempty_route_list_per_demand:
  assumes "valid_set_order set_order"
  shows "\<exists>g' R_ij.
           getAllPossibleRoutes set_order trivial max_hops g demands = Inr (g', R_ij)
         \<and> length R_ij = length demands
         \<and> (\<forall>routes \<in> set R_ij. routes \<noteq> [] \<and> length routes \<le> 6)
         \<and> (\<forall>i < length demands.
              (\<not> has_node (graph_at set_order trivial max_hops g demands i) (dm_s (demands ! i))
               \<or> \<not> has_node (graph_at set_order trivial max_hops g demands i) (dm_t (demands ! i))
               \<or> (\<forall>p. simple_path (graph_at set_order trivial max_hops g demands i)
                          (dm_s (demands ! i)) (dm_t (demands ! i)) p \<longrightarrow> Suc max_hops < length p))
              \<longrightarrow> R_ij ! i = [[(dm_s (demands ! i), dm_t (demands ! i),
                                 default_key (dm_s (demands ! i)) (dm_t (demands ! i)))]])"
proof -
  from getAllPossibleRoutes_total[OF assms] obtain g' R_ij where
    run: "getAllPossibleRoutes set_order trivial max_hops g demands = Inr (g', R_ij)"
    and len: "length R_ij = length demands"
    and ne: "\<forall>rs \<in> set R_ij. rs \<noteq> [] \<and> length rs \<le> 6" by blast
  have syn: "R_ij ! i = [[(dm_s (demands ! i), dm_t (demands ! i),
                                 default_key (dm_s (demands ! i)) (dm_t (demands ! i)))]]"
    if i: "i < length demands"
    and c: "\<not> has_node (graph_at set_order trivial max_hops g demands i) (dm_s (demands ! i))
               \<or> \<not> has_node (graph_at set_order trivial max_hops g demands i) (dm_t (demands ! i))
               \<or> (\<forall>p. simple_path (graph_at set_order trivial max_hops g demands i)
                          (dm_s (demands ! i)) (dm_t (demands ! i)) p \<longrightarrow> Suc max_hops < length p)"
    for i
  proof -
    from c have c': "\<not> has_node (graph_at set_order trivial max_hops g demands i) (dm_s (demands ! i))
        \<or> \<not> has_node (graph_at set_order trivial max_hops g demands i) (dm_t (demands ! i))
        \<or> all_simple_paths trivial (graph_at set_order trivial max_hops g demands i)
             (dm_s (demands ! i)) (dm_t (demands ! i)) max_hops = []"
      by (rule synthetic_cases)
    have "Inr (graph_at set_order trivial max_hops g demands (Suc i), R_ij ! i)
          = route_step set_order trivial max_hops (graph_at set_order trivial max_hops g demands i) (demands ! i)"
      using getAllPossibleRoutes_nth[OF run i] by simp
    also have "\<dots> = Inr (add_edge (graph_at set_order trivial max_hops g demands i)
               (dm_s (demands ! i)) (dm_t (demands ! i))
               (default_key (dm_s (demands ! i)) (dm_t (demands ! i))) default_attr,
             synthetic_route (demands ! i))"
      by (rule route_step_synthetic[OF c'])
    finally show ?thesis by (simp add: synthetic_route_def)
  qed
  show ?thesis
    apply (rule exI[of _ g'], rule exI[of _ R_ij])
    apply (intro conjI)
       apply (rule run)
      apply (rule len)
     apply (rule ne)
    apply (intro allI impI)
    apply (erule (1) syn)
    done
qed

theorem C9_witness:
  "valid_set_order (\<lambda>ps. ps) \<and>
   (\<exists>g' R_ij. getAllPossibleRoutes (\<lambda>ps. ps) True 4 example_graph [demand_XY] = Inr (g', R_ij)
      \<and> length R_ij = 1 \<and> R_ij ! 0 \<noteq> [] \<and> length (R_ij ! 0) \<le> 6
      \<and> R_ij ! 0 = [[(''X'', ''Y'', default_key ''X'' ''Y'')]])"
proof -
  have v: "valid_set_order (\<lambda>ps. ps)" by (simp add: valid_set_order_def)
  from C9_one_nonempty_route_list_per_demand[OF v, of True 4 example_graph "[demand_XY]"]
  obtain g' R_ij where
    run: "getAllPossibleRoutes (\<lambda>ps. ps) True 4 example_graph [demand_XY] = Inr (g', R_ij)"
    and len: "length R_ij = length [demand_XY]"
    and ne: "\<forall>routes \<in> set R_ij. routes \<noteq> [] \<and> length routes \<le> 6"
    and syn: "\<forall>i < length [demand_XY].
              (\<not> has_node (graph_at (\<lambda>ps. ps) True 4 example_graph [demand_XY] i) (dm_s ([demand_XY] ! i))
               \<or> \<not> has_node (graph_at (\<lambda>ps. ps) True 4 example_graph [demand_XY] i) (dm_t ([demand_XY] ! i))
               \<or> (\<forall>p. simple_path (graph_at (\<lambda>ps. ps) True 4 example_graph [demand_XY] i)
                          (dm_s ([demand_XY] ! i)) (dm_t ([demand_XY] ! i)) p \<longrightarrow> Suc 4 < length p))
              \<longrightarrow> R_ij ! i = [[(dm_s ([demand_XY] ! i), dm_t ([demand_XY] ! i),
                                 default_key (dm_s ([demand_XY] ! i)) (dm_t ([demand_XY] ! i)))]]"
    by blast
  have n: "\<not> has_node (graph_at (\<lambda>ps. ps) True 4 example_graph [demand_XY] 0) (dm_s ([demand_XY] ! 0))"
    by (simp add: has_node_def example_graph_def demand_XY_def)
  from syn n have r: "R_ij ! 0 = [[(''X'', ''Y'', default_key ''X'' ''Y'')]]"
    by (simp add: demand_XY_def)
  from len have l1: "length R_ij = 1" by simp
  then have "R_ij ! 0 \<in> set R_ij" by (metis nth_mem zero_less_one)
  with ne have "R_ij ! 0 \<noteq> [] \<and> length (R_ij ! 0) \<le> 6" by blast
  with v run l1 r show ?thesis by blast
qed

text \<open>
  Claim C6: for a demand whose endpoints are nodes of the graph and that has a simple path
  of at most \<open>max_hops\<close> nodes, the enumerator returns normally and leaves the graph
  as it was; with \<open>m\<close> the least node-length of a simple path from \<open>s\<close> to \<open>t\<close>, the
  routes of the demand are the first 6 of the edge-level routes of the simple paths of
  length \<open>m\<close>, each node path taken once, each expanded to the Cartesian product of the
  parallel edges of its hops. (For a demand from a node to itself the library must be one
  that lists the one-node path; the older releases list nothing, and the demand then gets
  a synthetic edge.)
\<close>

theorem C6_shortest_paths_expanded_and_truncated:
  assumes "valid_set_order set_order" and "i < length demands"
    and "gi = graph_at set_order trivial max_hops g demands i"
    and "s = dm_s (demands ! i)" and "t = dm_t (demands ! i)"
    and "has_node gi s" and "has_node gi t"
    and "simple_path gi s t p0" and "length p0 \<le> max_hops"
    and "s \<noteq> t \<or> trivial"
  shows "\<exists>g' R_ij shortest m.
           getAllPossibleRoutes set_order trivial max_hops g demands = Inr (g', R_ij)
         \<and> (\<forall>p. simple_path gi s t p \<longrightarrow> m \<le> length p)
         \<and> distinct shortest
         \<and> set shortest = {p. simple_path gi s t p \<and> length p = m}
         \<and> R_ij ! i = take 6 (routes_of_paths gi shortest)
         \<and> R_ij ! i \<noteq> []
         \<and> length (R_ij ! i) \<le> 6
         \<and> graph_at set_order trivial max_hops g demands (Suc i) = gi"
proof -
  let ?dm = "demands ! i"
  let ?nps = "all_simple_paths trivial gi (dm_s ?dm) (dm_t ?dm) max_hops"
  let ?m = "min_list (map length ?nps)"
  let ?sh = "shortest_listed trivial gi ?dm max_hops"
  from getAllPossibleRoutes_total[OF assms(1)] obtain g' R_ij where
    run: "getAllPossibleRoutes set_order trivial max_hops g demands = Inr (g', R_ij)" by blast
  have setn: "set ?nps = {p. simple_path gi s t p \<and> length p \<le> Suc max_hops}"
    using set_all_simple_paths[OF assms(10), of gi max_hops] assms(4,5) by simp
  have p0in: "p0 \<in> set ?nps" using setn assms(8,9) by simp
  then have nonempty: "?nps \<noteq> []" by auto
  have hs: "has_node gi (dm_s ?dm)" "has_node gi (dm_t ?dm)" using assms(4-7) by simp_all
  note step = route_step_paths[OF hs nonempty assms(1)]
  have "Inr (graph_at set_order trivial max_hops g demands (Suc i), R_ij ! i)
        = route_step set_order trivial max_hops gi ?dm"
    using getAllPossibleRoutes_nth[OF run assms(2)] assms(3) by simp
  also have "\<dots> = Inr (gi, take MAX_ROUTES_PER_DEMAND (routes_of_paths gi (set_order ?sh)))"
    by (rule step(1))
  finally have res: "graph_at set_order trivial max_hops g demands (Suc i) = gi"
    "R_ij ! i = take 6 (routes_of_paths gi (set_order ?sh))"
    by (simp_all add: MAX_ROUTES_PER_DEMAND_def)
  have dsh: "distinct ?sh" by (simp add: shortest_listed_def Let_def)
  with assms(1) have so: "distinct (set_order ?sh)" "set (set_order ?sh) = set ?sh"
    by (simp_all add: valid_set_order_def)
  have m_le_p0: "?m \<le> length p0" using p0in by (intro min_list_le) simp
  have m_min: "?m \<le> length p" if sp: "simple_path gi s t p" for p
  proof (cases "length p \<le> Suc max_hops")
    case True
    with sp setn have "p \<in> set ?nps" by simp
    then show ?thesis by (intro min_list_le) simp
  next
    case False
    with m_le_p0 assms(9) show ?thesis by linarith
  qed
  have m_in: "?m \<in> set (map length ?nps)" using nonempty by (intro min_list_in) simp
  have setsh: "set ?sh = {p. simple_path gi s t p \<and> length p = ?m}"
  proof (intro equalityI subsetI)
    fix p assume "p \<in> set ?sh"
    then have "p \<in> set ?nps" "length p = ?m" by (simp_all add: shortest_listed_def Let_def)
    with setn show "p \<in> {p. simple_path gi s t p \<and> length p = ?m}" by simp
  next
    fix p assume "p \<in> {p. simple_path gi s t p \<and> length p = ?m}"
    then have sp: "simple_path gi s t p" and l: "length p = ?m" by simp_all
    from l m_le_p0 assms(9) have "length p \<le> Suc max_hops" by linarith
    with sp setn have "p \<in> set ?nps" by simp
    with l show "p \<in> set ?sh" by (simp add: shortest_listed_def Let_def)
  qed
  have ne: "R_ij ! i \<noteq> []" using res(2) step(2) by simp
  have le: "length (R_ij ! i) \<le> 6" using res(2) by simp
  show ?thesis
    apply (rule exI[of _ g'], rule exI[of _ R_ij], rule exI[of _ "set_order ?sh"], rule exI[of _ ?m])
    apply (intro conjI allI impI)
           apply (rule run)
          apply (erule m_min)
         apply (rule so(1))
        apply (simp only: so(2) setsh)
       apply (rule res(2))
      apply (rule ne)
     apply (rule le)
    apply (rule res(1))
    done
qed

theorem C6_witness:
  "valid_set_order (\<lambda>ps. ps) \<and> (0::nat) < length [demand_AC]
   \<and> has_node example_graph ''A'' \<and> has_node example_graph ''C''
   \<and> simple_path example_graph ''A'' ''C'' [''A'', ''C''] \<and> length [''A'', ''C''] \<le> (4::nat)
   \<and> (\<exists>g' R_ij shortest m.
           getAllPossibleRoutes (\<lambda>ps. ps) True 4 example_graph [demand_AC] = Inr (g', R_ij)
         \<and> (\<forall>p. simple_path example_graph ''A'' ''C'' p \<longrightarrow> m \<le> length p)
         \<and> distinct shortest
         \<and> set shortest = {p. simple_path example_graph ''A'' ''C'' p \<and> length p = m}
         \<and> R_ij ! 0 = take 6 (routes_of_paths example_graph shortest)
         \<and> R_ij ! 0 \<noteq> []
         \<and> length (R_ij ! 0) \<le> 6
         \<and> graph_at (\<lambda>ps. ps) True 4 example_graph [demand_AC] (Suc 0) = example_graph)"
proof -
  have v: "valid_set_order (\<lambda>ps. ps)" by (rule valid_set_order_id)
  have l: "(0::nat) < length [demand_AC]" by simp
  have g: "example_graph = graph_at (\<lambda>ps. ps) True 4 example_graph [demand_AC] 0" by simp
  have s: "''A'' = dm_s ([demand_AC] ! 0)" and t: "''C'' = dm_t ([demand_AC] ! 0)"
    by (simp_all add: demand_AC_def)
  have hA: "has_node example_graph ''A''" and hC: "has_node example_graph ''C''"
    by (simp_all add: has_node_def example_graph_def)
  have sp: "simple_path example_graph ''A'' ''C'' [''A'', ''C'']"
    by (simp add: simple_path_def example_graph_def keydict_def joins_def)
  have len: "length [''A'', ''C''] \<le> (4::nat)" by simp
  have ne: "''A'' \<noteq> ''C'' \<or> True" by simp
  note concl = C6_shortest_paths_expanded_and_truncated[OF v l g s t hA hC sp len ne]
  show ?thesis
    apply (intro conjI)
          apply (rule v)
         apply (rule l)
        apply (rule hA)
       apply (rule hC)
      apply (rule sp)
     apply (rule len)
    apply (rule concl)
    done
qed

text \<open>
  Claim C7: two runs on equal graphs and equal demand lists produce the same \<open>R_ij\<close>.

  The shortest node paths pass through a Python set before they are expanded, so their
  order is the set's iteration order, which for tuples of strings changes with the
  per-process hash seed. Both \<open>\<lambda>ps. ps\<close> and \<open>rev\<close> are orders a set can have
  (\<open>valid_set_order_id\<close>, \<open>valid_set_order_rev\<close>). On the diamond network they
  give different route lists for the same graph and demand, and the truncation to 6
  routes keeps the route over \<open>C\<close> in one run and drops it in the other.
\<close>

theorem C7_set_order_changes_routes:
  "map_sum id snd (getAllPossibleRoutes (\<lambda>ps. ps) True 4 diamond_graph [demand_AD]) =
     Inr [[[(''A'', ''B'', IntKey 0), (''B'', ''D'', IntKey 0)],
           [(''A'', ''B'', IntKey 0), (''B'', ''D'', IntKey 1)],
           [(''A'', ''B'', IntKey 1), (''B'', ''D'', IntKey 0)],
           [(''A'', ''B'', IntKey 1), (''B'', ''D'', IntKey 1)],
           [(''A'', ''B'', IntKey 2), (''B'', ''D'', IntKey 0)],
           [(''A'', ''B'', IntKey 2), (''B'', ''D'', IntKey 1)]]]
   \<and> map_sum id snd (getAllPossibleRoutes rev True 4 diamond_graph [demand_AD]) =
     Inr [[[(''A'', ''C'', IntKey 0), (''C'', ''D'', IntKey 0)],
           [(''A'', ''B'', IntKey 0), (''B'', ''D'', IntKey 0)],
           [(''A'', ''B'', IntKey 0), (''B'', ''D'', IntKey 1)],
           [(''A'', ''B'', IntKey 1), (''B'', ''D'', IntKey 0)],
           [(''A'', ''B'', IntKey 1), (''B'', ''D'', IntKey 1)],
           [(''A'', ''B'', IntKey 2), (''B'', ''D'', IntKey 0)]]]"
  by (simp add: diamond_graph_def demand_AD_def has_node_def route_step_def Let_def
      all_simple_paths_def edge_targets_def nbrs_def uniq_def touches_def other_end_def
      keydict_def joins_def bindE_def getitem_uv_def MAX_ROUTES_PER_DEMAND_def numeral_eq_Suc)

text \<open>
  Claim C8: every strategy leaves the frames of the solver as it found them; every
  \<open>push\<close> is matched by one \<open>pop\<close> on every exit path, so that the solver can be
  used again without leaked assertions.

  A run that leaves by an exception between \<open>push\<close> and \<open>pop\<close> breaks this: no
  strategy has a \<open>try\<close> around them. With no demands there are no routes, the objective
  is \<open>Sum([])\<close>, the Python number 0, and \<open>solver.minimize\<close> raises AttributeError.
  S1 and S3 then leave the solver with the frame they opened and, inside it, the six
  assertions on the two edges of the example network.
\<close>

theorem C8_exception_leaves_frame_open:
  "optimizeObjective never_sat example_vars_graph [] [] [] empty_solver
     = Inl (AttributeError,
            \<lparr> assertions =
                 [EqF (RealVar ''f_A-C-red'') (NumVal 0), Ge (RealVar ''f_A-C-red'') (NumVal 0),
                  Le (RealVar ''f_A-C-red'') (NumVal 100),
                  EqF (RealVar ''f_A-C-Bus'') (NumVal 0), Ge (RealVar ''f_A-C-Bus'') (NumVal 0),
                  Le (RealVar ''f_A-C-Bus'') (NumVal 500)],
               objectives = [], frames = [(0, 0)] \<rparr>)
   \<and> setPricesHighToLowWO never_sat no_text example_vars_graph [] [] [] empty_solver
     = Inl (AttributeError, example_vars_graph, [],
            \<lparr> assertions =
                 [EqF (RealVar ''f_A-C-red'') (NumVal 0), Ge (RealVar ''f_A-C-red'') (NumVal 0),
                  Le (RealVar ''f_A-C-red'') (NumVal 100),
                  EqF (RealVar ''f_A-C-Bus'') (NumVal 0), Ge (RealVar ''f_A-C-Bus'') (NumVal 0),
                  Le (RealVar ''f_A-C-Bus'') (NumVal 500)],
               objectives = [], frames = [(0, 0)] \<rparr>)"
  by (simp add: optimizeObjective_def setPricesHighToLowWO_def setPricesHighToLow_def probe_def
        price_loop.simps[of _ _ _ _ _ _ "120"] P_MAX_def P_MIN_def set_symbolic_prices_def
        map_attrs_def has_symbolic_def eval_defs example_defs)

text \<open>
  Claim C5: no strategy ever raises; each returns a pair \<open>(model, solved)\<close>.

  Two runs that raise, each with the graph, the route flows and the solver as it found
  them. S5 reads \<open>data["capacity"]\<close> of every edge in
  \<open>data["capacity"] += C_Delta\<close>; on an edge that has no capacity (an input the
  constraint builder accepts: it reads \<open>data.get('capacity', ...)\<close>) this is a KeyError.
  S2 divides every route price by the sum of the route prices of the demand; when the
  tickets of all routes are free the sum is 0 and the division raises ZeroDivisionError.
\<close>

theorem C5_strategies_raise:
  "increaseCapacity never_sat uncapped_graph single_route single_flow [demand_AC] empty_solver
     = Inl (KeyError, uncapped_graph, empty_solver)
   \<and> setPricesHighToLow never_sat no_text False free_graph single_route single_flow [demand_AC]
       empty_solver = Inl (ZeroDivisionError, free_graph, single_flow, empty_solver)"
  by (simp add: increaseCapacity_def bump_capacities_def setPricesHighToLow_def numeral_eq_Suc
        eval_defs uncapped_graph_def free_graph_def single_route_def single_flow_def demand_AC_def)




text \<open>
  Claim C1: for every demand \<open>i\<close> whose endpoints are both nodes of the graph and every
  route \<open>j\<close> of it, \<open>addC3C4Constraints\<close> asserts exactly the two Wardrop implications:
  \<open>flow_i_j >= 1\<close> implies \<open>T_i - 5 <= cost_R <= T_i + 5\<close>, and \<open>flow_i_j <= 1\<close>
  implies \<open>price_R >= T_i - 5\<close>, where \<open>cost_R\<close> is the sum over the edges of the route
  of \<open>k * f_e + price\<close> and \<open>price_R\<close> the sum of the prices.

  On inputs on which nothing raises (\<open>inputs_ok\<close>) the builder returns, and what it has
  added to the solver is, demand by demand in the order of the demand list, the block
  \<open>demand_block\<close>: nothing for a demand with an endpoint outside the graph; otherwise the
  conservation \<open>Sum(f_R_vars[i]) == d_i\<close> followed, route by route, by exactly the two
  implications (\<open>wardrop_pair\<close>) over \<open>route_cost\<close> and \<open>route_price\<close>.
\<close>

theorem C1_wardrop_implications_per_route:
  assumes "inputs_ok g R_ij f_R_vars demands"
  shows "addC3C4Constraints g R_ij f_R_vars demands sv =
           Inr (sv\<lparr>assertions := assertions sv
                  @ concat (map (demand_block g R_ij f_R_vars) (enumerate 0 demands))\<rparr>)"
  using assms unfolding addC3C4Constraints_def inputs_ok_def by (rule demands_loop_ok)

theorem C1_witness:
  "inputs_ok example_vars_graph example_routes example_flows [demand_AC]
   \<and> addC3C4Constraints example_vars_graph example_routes example_flows [demand_AC] empty_solver =
       Inr \<lparr> assertions =
        [EqF (SumOf [RealVar ''flow_0_0'', RealVar ''flow_0_1'']) (NumVal 120),
         Implies (Ge (RealVar ''flow_0_0'') (NumVal 1))
          (And [Le (SumOf [Plus (Times (NumVal 1) (RealVar ''f_A-C-red'')) (NumVal 5)])
                   (Plus (RealVar ''T_0'') (NumVal 5)),
                Ge (SumOf [Plus (Times (NumVal 1) (RealVar ''f_A-C-red'')) (NumVal 5)])
                   (Minus (RealVar ''T_0'') (NumVal 5))]),
         Implies (Le (RealVar ''flow_0_0'') (NumVal 1))
          (And [Le (Minus (RealVar ''T_0'') (NumVal 5)) (NumVal 5)]),
         Implies (Ge (RealVar ''flow_0_1'') (NumVal 1))
          (And [Le (SumOf [Plus (Times (NumVal 2) (RealVar ''f_A-C-Bus'')) (NumVal 5)])
                   (Plus (RealVar ''T_0'') (NumVal 5)),
                Ge (SumOf [Plus (Times (NumVal 2) (RealVar ''f_A-C-Bus'')) (NumVal 5)])
                   (Minus (RealVar ''T_0'') (NumVal 5))]),
         Implies (Le (RealVar ''flow_0_1'') (NumVal 1))
          (And [Le (Minus (RealVar ''T_0'') (NumVal 5)) (NumVal 5)])],
        objectives = [], frames = [] \<rparr>"
proof -
  have ok: "inputs_ok example_vars_graph example_routes example_flows [demand_AC]"
    by (simp add: inputs_ok_def demand_ok_def priced_edge_def edge_value_def eval_defs example_defs)
  from C1_wardrop_implications_per_route[OF ok, of empty_solver] ok show ?thesis
    by (simp add: demand_block_def wardrop_pair_def wardrop_used_def wardrop_unused_def
          route_cost_def route_price_def total_val_def edge_value_def price_num_def str_nat_0
          eval_defs example_defs)
qed

text \<open>
  Claim C3: for every edge the builder asserts \<open>f_e == 0\<close> when no enumerated route
  contains the edge and \<open>f_e == Sum\<close> of the flows of the routes that contain it
  otherwise (when that sum is symbolic), and always \<open>0 <= f_e <= capacity\<close> with the
  capacity 500 when the edge has none.

  Two runs of the code that do otherwise. The graph is undirected and reports the edge
  added as \<open>A C\<close> as \<open>(A, C, 0)\<close>; the enumerator lists the route of the demand from
  \<open>C\<close> to \<open>A\<close> in the direction of travel, as \<open>(C, A, 0)\<close>. The builder compares the
  triples component by component, finds no route on the edge and asserts \<open>f_e == 0\<close>,
  although the only route of the demand runs over it. And for an edge without a
  capacity the bound is \<open>Int(500)\<close>, which z3 reads as an integer constant named 500:
  the assertion is \<open>f_e <= k!500\<close> with a free variable, not \<open>f_e <= 500\<close>.
\<close>

theorem C3_edge_flow_zero_on_used_edge:
  "map_sum id snd (getAllPossibleRoutes (\<lambda>ps. ps) True 4 one_edge_graph [demand_CA])
     = Inr [[[(''C'', ''A'', IntKey 0)]]]
   \<and> map (\<lambda>(u, v, key, data). (u, v, key)) (edges_view one_edge_graph) = [(''A'', ''C'', IntKey 0)]
   \<and> addC1C2Constraints one_edge_graph [[[(''C'', ''A'', IntKey 0)]]] single_flow empty_solver
     = Inr \<lparr> assertions = [EqF (RealVar ''f_A-C-red'') (NumVal 0),
                             Ge (RealVar ''f_A-C-red'') (NumVal 0),
                             Le (RealVar ''f_A-C-red'') (NumVal 100)],
              objectives = [], frames = [] \<rparr>
   \<and> addC1C2Constraints uncapped_graph single_route single_flow empty_solver
     = Inr \<lparr> assertions = [EqF (RealVar ''f_A-C-red'') (SumOf [RealVar ''flow_0_0'']),
                             Ge (RealVar ''f_A-C-red'') (NumVal 0),
                             Le (RealVar ''f_A-C-red'') (IntVar 500)],
              objectives = [], frames = [] \<rparr>"
  by (simp add: one_edge_graph_def demand_CA_def uncapped_graph_def single_route_def single_flow_def
        route_step_def all_simple_paths_def edge_targets_def MAX_ROUTES_PER_DEMAND_def
        numeral_eq_Suc eval_defs example_defs)

text \<open>
  Claim C10: for every input file, parsing what was written from the parsed graph gives
  the same edges with equal attributes.

  Two files that the parser accepts and that do not come back. The written file holds
  the edge list only: neither the table of coefficients nor the keys of the edges.

  In the first file the table gives the colour \<open>red\<close> the coefficient 0. The parser
  tests \<open>not edge_data.get("k")\<close>, so in the written file the edge, whose \<open>k\<close> is 0,
  counts as an edge without \<open>k\<close>, and the look-up in the table, which the written file
  does not have, raises TypeError.

  In the second file the line names the key of its edge, 5. The written line has no
  key, and parsing it gives the edge the key 0: the edge \<open>(A, C, 5)\<close> of the parsed
  graph is no edge of the graph that is read back.
\<close>

theorem C10_round_trip_fails:
  "parseGraph zero_k_file = Inr zero_k_graph
   \<and> parseGraph (writeGraphToJSON zero_k_graph) = Inl TypeError
   \<and> parseGraph keyed_file = Inr (keyed_graph 5)
   \<and> parseGraph (writeGraphToJSON (keyed_graph 5)) = Inr (keyed_graph 0)"
  by (simp add: zero_k_file_def zero_k_graph_def keyed_file_def keyed_graph_def parse_defs eval_defs
        fun_eq_iff)

section \<open>Further properties\<close>

lemma sum_scaled: "sum_list (map (\<lambda>x. x / t * d) xs) = sum_list xs / t * (d::rat)"
  by (induction xs) (simp_all add: add_divide_distrib distrib_right)

text \<open>
  The flows that S2 commits to for a demand with numeric route prices add up to the
  demand, when the prices do not add up to 0: the estimate keeps the conservation of the
  demand.
\<close>

theorem split_flows_sum_to_demand:
  assumes "sum_list (map price_num prices) \<noteq> 0"
  shows "sum_list (map price_num (proportional_split prices d)) = d"
proof -
  have "map price_num (proportional_split prices d)
        = map (\<lambda>x. x / sum_list (map price_num prices) * d) (map price_num prices)"
    by (simp add: proportional_split_def price_num_def comp_def)
  then show ?thesis using assms by (simp only: sum_scaled) simp
qed

theorem split_flows_sum_to_demand_witness:
  "sum_list (map price_num [PNum 5, PNum 5]) \<noteq> 0
   \<and> sum_list (map price_num (proportional_split [PNum 5, PNum 5] 120)) = 120"
proof -
  have h: "sum_list (map price_num [PNum 5, PNum 5]) \<noteq> 0" by (simp add: price_num_def)
  from split_flows_sum_to_demand[OF h, of 120] h show ?thesis by simp
qed

text \<open>
  S1 reports what the solver answered: when it returns, the pair is a model with
  \<open>True\<close>, or \<open>None\<close> with \<open>False\<close>.
\<close>

theorem optimizeObjective_reports_check:
  assumes "optimizeObjective check g R_ij f_R_vars demands sv = Inr (res, sv')"
  shows "(\<exists>m. res = (Some m, True)) \<or> res = (None, False)"
  using assms unfolding optimizeObjective_def Let_def
  by (auto elim!: bindE_InrE split: option.splits)

theorem optimizeObjective_reports_check_witness:
  "optimizeObjective never_sat example_vars_graph example_routes example_flows [demand_AC] empty_solver
     = Inr ((None, False), empty_solver)
   \<and> ((\<exists>m. (None :: unit option, False) = (Some m, True)) \<or> (None :: unit option, False) = (None, False))"
proof -
  have run: "optimizeObjective never_sat example_vars_graph example_routes example_flows [demand_AC]
       empty_solver = Inr ((None, False), empty_solver)"
    by (simp add: optimizeObjective_def eval_defs example_defs)
  from optimizeObjective_reports_check[OF run] run show ?thesis by blast
qed

text \<open>
  Whenever S1 (\<open>optimizeObjective\<close>), S2 and S3 (\<open>setPricesHighToLow\<close>, with or
  without the objective), S4 or S5 returns, on whatever path, the solver it returns is
  the solver it was given: the same assertions, objectives and open frames. On the
  paths that return, each \<open>push\<close> has been undone by exactly one \<open>pop\<close>.
\<close>

theorem strategies_restore_solver_on_return:
  "(optimizeObjective check g R_ij f_R_vars demands sv = Inr (res1, sv1) \<longrightarrow> sv1 = sv)
   \<and> (setPricesHighToLow check evaluate with_obj g R_ij f_R_vars demands sv = Inr (res2, g2, f2, sv2)
        \<longrightarrow> sv2 = sv)
   \<and> (binarySearchCapacity check g R_ij f_R_vars demands sv = Inr (res4, g4, sv4) \<longrightarrow> sv4 = sv)
   \<and> (increaseCapacity check g R_ij f_R_vars demands sv = Inr (res5, g5, sv5) \<longrightarrow> sv5 = sv)"
  unfolding binarySearchCapacity_def increaseCapacity_def
  apply (intro conjI impI)
     apply (erule optimizeObjective_restores)
    apply (erule setPricesHighToLow_restores)
   apply (erule bs_loop_restores)
  apply (erule inc_loop_restores)
  done

theorem strategies_restore_solver_on_return_witness:
  "(\<exists>res sv1. optimizeObjective never_sat example_vars_graph example_routes example_flows
                    [demand_AC] empty_solver = Inr (res, sv1) \<and> sv1 = empty_solver)
   \<and> (\<exists>res g2 f2 sv2. setPricesHighToLow never_sat no_text False example_vars_graph example_routes
                    example_flows [demand_AC] empty_solver = Inr (res, g2, f2, sv2) \<and> sv2 = empty_solver)"
proof -
  have "\<exists>res sv1. optimizeObjective never_sat example_vars_graph example_routes example_flows
                    [demand_AC] empty_solver = Inr (res, sv1)"
    by (simp add: optimizeObjective_def eval_defs example_defs) blast
  then obtain res sv1 where run1: "optimizeObjective never_sat example_vars_graph example_routes
                    example_flows [demand_AC] empty_solver = Inr (res, sv1)" by blast
  have "\<exists>res g2 f2 sv2. setPricesHighToLow never_sat no_text False example_vars_graph example_routes
                    example_flows [demand_AC] empty_solver = Inr (res, g2, f2, sv2)"
    by (simp add: setPricesHighToLow_def probe_def price_loop.simps[of _ _ _ _ _ _ "120"]
          P_MAX_def P_MIN_def set_symbolic_prices_def map_attrs_def has_symbolic_def
          eval_defs example_defs) blast
  then obtain res2 g2 f2 sv2 where run2: "setPricesHighToLow never_sat no_text False example_vars_graph
                    example_routes example_flows [demand_AC] empty_solver = Inr (res2, g2, f2, sv2)"
    by blast
  note inst = strategies_restore_solver_on_return[of never_sat example_vars_graph example_routes
      example_flows "[demand_AC]" empty_solver res sv1 no_text False res2 g2 f2 sv2]
  from inst run1 have "sv1 = empty_solver" by blast
  moreover from inst run2 have "sv2 = empty_solver" by blast
  ultimately show ?thesis using run1 run2 by blast
qed

text \<open>
  Where the round trip through the file holds. Let a file parse to a graph in which the
  keys between any two nodes are 0, 1, 2, ... (no line names a key of its own) and every
  edge has a \<open>k\<close> that is neither missing, \<open>None\<close>, zero nor empty. Then parsing the
  file written from that graph succeeds and gives a graph with the same nodes and,
  between any two nodes, the same edges under the same keys in the same order, each with
  the attributes it had, a symbolic attribute value being replaced by \<open>None\<close>. This is
  a statement about the content of the files: the values are those of the model, finite
  numbers, strings and \<open>None\<close>, and the text of a line is not modelled.
\<close>

theorem round_trip_of_counted_keys:
  assumes "parseGraph f = Inr g"
    and "counted_keys (edges g)"
    and "\<forall>(x, y, k, a) \<in> set (edges g). \<not> falsy (clean_attributes a ''k'')"
  shows "\<exists>g'. parseGraph (writeGraphToJSON g) = Inr g'
           \<and> set (nodes g') = set (nodes g)
           \<and> (\<forall>u v. keydict g' u v = map (\<lambda>(k, a). (k, clean_attributes a)) (keydict g u v))"
proof -
  from parseGraph_tidy[OF assms(1)] have t: "tidy g" .
  with assms(2) have p: "parsed g" by (simp add: tidy_def parsed_def)
  from t have np: "list_all (\<lambda>(x, y, k, a). no_params a) (edges g)" by (simp add: tidy_def)
  from p np assms(3) show ?thesis by (rule round_trip_parsed)
qed

theorem round_trip_of_counted_keys_witness:
  "parseGraph example_file = Inr example_graph
   \<and> counted_keys (edges example_graph)
   \<and> \<not> falsy (clean_attributes red_attrs ''k'') \<and> \<not> falsy (clean_attributes bus_attrs ''k'')
   \<and> (\<exists>g'. parseGraph (writeGraphToJSON example_graph) = Inr g'
           \<and> set (nodes g') = set (nodes example_graph)
           \<and> (\<forall>u v. keydict g' u v
                 = map (\<lambda>(k, a). (k, clean_attributes a)) (keydict example_graph u v)))"
proof -
  have p: "parseGraph example_file = Inr example_graph"
    by (simp add: example_file_def example_graph_def red_attrs_def bus_attrs_def parseGraph_def
          parse_edgelist_def add_line_plain no_params_def add_edge_def add_nodes_def new_edge_key_def
          empty_graph_def k_of_color_def eval_defs del: set_filter)
  have c: "counted_keys (edges example_graph)"
    unfolding counted_keys_def keydict_of_def by (auto simp: example_graph_def joins_def)
  have k1: "\<not> falsy (clean_attributes red_attrs ''k'')" and k2: "\<not> falsy (clean_attributes bus_attrs ''k'')"
    by (simp_all add: clean_attributes_def red_attrs_def bus_attrs_def)
  have k: "\<forall>(x, y, k, a) \<in> set (edges example_graph). \<not> falsy (clean_attributes a ''k'')"
    using k1 k2 by (simp add: example_graph_def)
  from round_trip_of_counted_keys[OF p c k] p c k1 k2 show ?thesis by blast
qed

end
